theory Spec2Isabelle
  imports Main "HOL-Library.Word"
begin

section \<open>The sound buffer of soundbuf.cc\<close>

text \<open>
  The module keeps a ring of \<open>RING_SIZE\<close> samples that the audio callback fills
  (\<open>sndbuf_store\<close>) and the visualizer reads (\<open>getNextFragment\<close>). Every access to
  the module's variables happens between \<open>sndbuf_lock\<close> and \<open>sndbuf_unlock\<close>, so
  each call is one atomic step on the variables; the model passes them around as a
  record.

  \<open>NumSamples\<close> and \<open>sampleType\<close> come from \<open>syna.h\<close>: the former is a parameter of
  every definition, the latter the type variable \<open>'a\<close>. \<open>unsigned int\<close> is
  \<open>32 word\<close>. \<open>RING_SIZE\<close> is an \<open>int\<close> constant expression and the bound of a
  static array, so a build has \<open>0 < RING_SIZE \<le> INT_MAX\<close> (\<open>valid_build\<close>); in a
  comparison or a difference with an \<open>unsigned int\<close> it is converted to
  \<open>unsigned int\<close>.
\<close>

subsection \<open>Constants\<close>

definition RING_SIZE :: "nat \<Rightarrow> nat" where
  "RING_SIZE NumSamples = NumSamples * 2"

definition MIN_NEW_SAMPLES :: "nat \<Rightarrow> nat" where
  "MIN_NEW_SAMPLES NumSamples = RING_SIZE NumSamples div 2"

definition valid_build :: "nat \<Rightarrow> bool" where
  "valid_build NumSamples \<longleftrightarrow> 0 < NumSamples \<and> RING_SIZE NumSamples < 2 ^ 31"

subsection \<open>State\<close>

text \<open>
  The static variables \<open>ring\<close>, \<open>ring_write\<close>, \<open>signalled\<close> and \<open>ring_has\<close>, the
  global fragment buffer \<open>data\<close> that \<open>getNextFragment\<close> fills, and
  \<open>cond_signals\<close>, the number of calls of \<open>SDL_CondSignal(cond)\<close> made so far (the
  one effect of the module outside its variables).
\<close>

record 'a sndbuf =
  ring :: "'a list"
  ring_write :: "32 word"
  signalled :: int
  ring_has :: "32 word"
  data :: "'a list"
  cond_signals :: nat

text \<open>
  The variables as C initialises them: the static array is zero-filled,
  \<open>ring_write\<close>, \<open>signalled\<close> and \<open>ring_has\<close> are 0. The fragment buffer has
  any contents \<open>d\<close>, and no signal has been sent.
\<close>

definition sndbuf_start :: "nat \<Rightarrow> 'a::zero list \<Rightarrow> 'a sndbuf" where
  "sndbuf_start NumSamples d =
     \<lparr>ring = replicate (RING_SIZE NumSamples) 0, ring_write = 0, signalled = 0,
      ring_has = 0, data = d, cond_signals = 0\<rparr>"

text \<open>
  Modelled from the spec: the buffer \<open>data\<close> is declared in \<open>syna.h\<close>, which is
  not among the sources; the spec's fragment is a sequence of \<open>C\<close> samples, so in a
  valid state \<open>data\<close> is a buffer of \<open>RING_SIZE\<close> samples. The other two conditions
  are the declared bound of \<open>ring\<close> and the cursor being an index into it.
\<close>

definition sndbuf_inv :: "nat \<Rightarrow> 'a sndbuf \<Rightarrow> bool" where
  "sndbuf_inv NumSamples s \<longleftrightarrow>
     length (ring s) = RING_SIZE NumSamples \<and>
     length (data s) = RING_SIZE NumSamples \<and>
     unat (ring_write s) < RING_SIZE NumSamples"

subsection \<open>memcpy\<close>

text \<open>
  \<open>memcpy(&dst[d], &src[s], n * sizeof(sampleType))\<close> on two arrays that do not
  overlap. Reading past the end of \<open>src\<close> or writing past the end of \<open>dst\<close> is
  undefined in C and a fault here.
\<close>

datatype fault = ReadOutOfBounds | WriteOutOfBounds

definition memcpy :: "'a list \<Rightarrow> nat \<Rightarrow> 'a list \<Rightarrow> nat \<Rightarrow> nat \<Rightarrow> fault + 'a list" where
  "memcpy dst d src s n =
     (if length src < s + n then Inl ReadOutOfBounds
      else if length dst < d + n then Inl WriteOutOfBounds
      else Inr (take d dst @ take n (drop s src) @ drop (d + n) dst))"

subsection \<open>sndbuf_store\<close>

text \<open>
  Lines 135 to 146: \<open>ring_has += len\<close>, then the signal if the count has reached
  \<open>MIN_NEW_SAMPLES\<close> and \<open>signalled\<close> is 0.
\<close>

definition store_account :: "nat \<Rightarrow> 32 word \<Rightarrow> 'a sndbuf \<Rightarrow> 'a sndbuf" where
  "store_account NumSamples len s =
     (let s1 = s\<lparr>ring_has := ring_has s + len\<rparr> in
      if of_nat (MIN_NEW_SAMPLES NumSamples) \<le> ring_has s1 \<and> signalled s1 = 0
      then s1\<lparr>signalled := 1, cond_signals := cond_signals s1 + 1\<rparr>
      else s1)"

text \<open>
  Lines 126 to 146: the copy ``before the wrapping point'' of \<open>remain\<close> samples from
  \<open>ip\<close> to \<open>op\<close>, both given as offsets into \<open>input\<close> and \<open>ring\<close>, and the
  bookkeeping.
\<close>

definition store_finish ::
  "nat \<Rightarrow> 'a list \<Rightarrow> 32 word \<Rightarrow> nat \<Rightarrow> nat \<Rightarrow> 32 word \<Rightarrow> 'a sndbuf \<Rightarrow> fault + 'a sndbuf" where
  "store_finish NumSamples input len ip op remain s =
     (case memcpy (ring s) op input ip (unat remain) of
        Inl e \<Rightarrow> Inl e
      | Inr r \<Rightarrow> Inr (store_account NumSamples len (s\<lparr>ring := r\<rparr>)))"

text \<open>
  Lines 90 to 124. \<open>new_ring_write\<close> is an \<open>int\<close> that receives an \<open>unsigned int\<close>
  and is assigned back to \<open>ring_write\<close>, which keeps its 32 bits; as the count of
  the copy after the wrap it is \<open>len - remain\<close> with \<open>remain < len < RING_SIZE\<close>,
  which is not negative in a valid build.
\<close>

definition sndbuf_store :: "nat \<Rightarrow> 'a list \<Rightarrow> 32 word \<Rightarrow> 'a sndbuf \<Rightarrow> fault + 'a sndbuf" where
  "sndbuf_store NumSamples input len s =
     (if of_nat (RING_SIZE NumSamples) \<le> len then
        store_finish NumSamples input len (unat len - RING_SIZE NumSamples) 0
          (of_nat (RING_SIZE NumSamples)) (s\<lparr>ring_write := 0\<rparr>)
      else
        let remain = of_nat (RING_SIZE NumSamples) - ring_write s in
        if len < remain then
          store_finish NumSamples input len 0 (unat (ring_write s)) len
            (s\<lparr>ring_write := ring_write s + len\<rparr>)
        else if remain = len then
          store_finish NumSamples input len 0 (unat (ring_write s)) remain
            (s\<lparr>ring_write := 0\<rparr>)
        else
          let new_ring_write = len - remain in
          (case memcpy (ring s) 0 input (unat remain) (unat new_ring_write) of
             Inl e \<Rightarrow> Inl e
           | Inr r \<Rightarrow>
               store_finish NumSamples input len 0 (unat (ring_write s)) remain
                 (s\<lparr>ring := r, ring_write := new_ring_write\<rparr>)))"

subsection \<open>getNextFragment\<close>

text \<open>
  A call either sleeps on the condition variable (\<open>Waits\<close>: with \<open>signalled\<close> 0 the
  loop of lines 156 to 162 goes back to \<open>SDL_CondWait\<close> each time it wakes, until a
  store has changed the variable), or faults, or returns.
\<close>

datatype 'r outcome = Waits | Faults fault | Returns 'r

text \<open>
  The function is declared \<open>int\<close> and returns the \<open>unsigned int\<close> \<open>ring_had\<close>: the
  result is the value of its 32 bits read as two's complement (\<open>sint\<close>), negative
  from \<open>2 ^ 31\<close> on.
\<close>

definition getNextFragment :: "nat \<Rightarrow> 'a sndbuf \<Rightarrow> (int \<times> 'a sndbuf) outcome" where
  "getNextFragment NumSamples s =
     (if signalled s = 0 then Waits
      else
        let s1 = s\<lparr>signalled := 0\<rparr>;
            chunk1 = of_nat (RING_SIZE NumSamples) - ring_write s1
        in
        case memcpy (data s1) 0 (ring s1) (unat (ring_write s1)) (unat chunk1) of
          Inl e \<Rightarrow> Faults e
        | Inr d1 \<Rightarrow>
            (case (if 0 < ring_write s1
                   then memcpy d1 (unat chunk1) (ring s1) 0 (unat (ring_write s1))
                   else Inr d1) of
               Inl e \<Rightarrow> Faults e
             | Inr d2 \<Rightarrow> Returns (sint (ring_has s1), s1\<lparr>data := d2, ring_has := 0\<rparr>)))"

subsection \<open>The ring in temporal order\<close>

text \<open>
  The spec's flat sequence: the samples from \<open>ring_write\<close> to the end of the
  storage, then those before \<open>ring_write\<close>.
\<close>

definition linearized :: "'a sndbuf \<Rightarrow> 'a list" where
  "linearized s = drop (unat (ring_write s)) (ring s) @ take (unat (ring_write s)) (ring s)"

subsection \<open>Sequences of calls\<close>

text \<open>
  A batch is the pair of arguments of one call of \<open>sndbuf_store\<close>; the caller
  passes a buffer that holds at least \<open>len\<close> samples (\<open>batches_ok\<close>). \<open>samples\<close>
  are the samples the batches hand over, in call order.
\<close>

fun store_all :: "nat \<Rightarrow> ('a list \<times> 32 word) list \<Rightarrow> 'a sndbuf \<Rightarrow> fault + 'a sndbuf" where
  "store_all NumSamples [] s = Inr s"
| "store_all NumSamples ((input, len) # bs) s =
     (case sndbuf_store NumSamples input len s of
        Inl e \<Rightarrow> Inl e
      | Inr s' \<Rightarrow> store_all NumSamples bs s')"

definition batches_ok :: "('a list \<times> 32 word) list \<Rightarrow> bool" where
  "batches_ok bs = list_all (\<lambda>(input, len). unat len \<le> length input) bs"

definition samples :: "('a list \<times> 32 word) list \<Rightarrow> 'a list" where
  "samples bs = concat (map (\<lambda>(input, len). take (unat len) input) bs)"

text \<open>
  The pending count stays at or above the threshold after each of the stores of
  lengths \<open>ls\<close>, from the count \<open>p\<close>.
\<close>

fun pending_stays :: "nat \<Rightarrow> 32 word \<Rightarrow> 32 word list \<Rightarrow> bool" where
  "pending_stays NumSamples p [] = True"
| "pending_stays NumSamples p (l # ls) =
     (of_nat (MIN_NEW_SAMPLES NumSamples) \<le> p + l \<and> pending_stays NumSamples (p + l) ls)"

text \<open>
  Calls of both kinds, by the producer and the consumer, in the order in which they
  take the mutex. A call of \<open>getNextFragment\<close> that finds \<open>signalled\<close> 0 does not
  return before a later store, so a run in which it is the next call to complete
  does not exist (\<open>Waits\<close>).
\<close>

datatype 'a call = Store "'a list" "32 word" | Take

fun step :: "nat \<Rightarrow> 'a call \<Rightarrow> 'a sndbuf \<Rightarrow> 'a sndbuf outcome" where
  "step NumSamples (Store input len) s =
     (case sndbuf_store NumSamples input len s of
        Inl e \<Rightarrow> Faults e
      | Inr s' \<Rightarrow> Returns s')"
| "step NumSamples Take s =
     (case getNextFragment NumSamples s of
        Waits \<Rightarrow> Waits
      | Faults e \<Rightarrow> Faults e
      | Returns (c, s') \<Rightarrow> Returns s')"

fun run :: "nat \<Rightarrow> 'a call list \<Rightarrow> 'a sndbuf \<Rightarrow> 'a sndbuf outcome" where
  "run NumSamples [] s = Returns s"
| "run NumSamples (c # cs) s =
     (case step NumSamples c s of
        Waits \<Rightarrow> Waits
      | Faults e \<Rightarrow> Faults e
      | Returns s' \<Rightarrow> run NumSamples cs s')"

fun call_ok :: "'a call \<Rightarrow> bool" where
  "call_ok (Store input len) = (unat len \<le> length input)"
| "call_ok Take = True"

text \<open>
  The spec's data model, in its words: \<open>PendingCount\<close> is the counter of samples
  written since the last drain, \<open>Threshold\<close> is \<open>C / 2\<close>, and \<open>Ready\<close> is true
  exactly when \<open>PendingCount\<close> has reached the threshold since the last drain and
  no wake has been consumed. \<open>spec_ready\<close> gives the pair of \<open>PendingCount\<close> and
  \<open>Ready\<close> after a sequence of calls.
\<close>

definition Threshold :: "nat \<Rightarrow> nat" where
  "Threshold NumSamples = RING_SIZE NumSamples div 2"

fun spec_ready :: "nat \<Rightarrow> 'a call list \<Rightarrow> 32 word \<times> bool \<Rightarrow> 32 word \<times> bool" where
  "spec_ready NumSamples [] pr = pr"
| "spec_ready NumSamples (Store input len # cs) (p, r) =
     spec_ready NumSamples cs (p + len, r \<or> of_nat (Threshold NumSamples) \<le> p + len)"
| "spec_ready NumSamples (Take # cs) (p, r) = spec_ready NumSamples cs (0, False)"

text \<open>The last \<open>n\<close> elements of a sequence (all of it if it has fewer).\<close>

definition last_n :: "nat \<Rightarrow> 'a list \<Rightarrow> 'a list" where
  "last_n n xs = drop (length xs - n) xs"

section \<open>Arithmetic of the constants\<close>

lemma unat_RING_SIZE:
  "valid_build N \<Longrightarrow> unat (of_nat (RING_SIZE N) :: 32 word) = RING_SIZE N"
  by (simp add: valid_build_def unat_of_nat)

lemma MIN_NEW_SAMPLES_eq: "MIN_NEW_SAMPLES N = N"
  by (simp add: MIN_NEW_SAMPLES_def RING_SIZE_def)

lemma unat_MIN_NEW_SAMPLES:
  "valid_build N \<Longrightarrow> unat (of_nat (MIN_NEW_SAMPLES N) :: 32 word) = N"
  by (simp add: valid_build_def MIN_NEW_SAMPLES_eq RING_SIZE_def unat_of_nat)

lemma Threshold_eq: "Threshold N = MIN_NEW_SAMPLES N"
  by (simp add: Threshold_def MIN_NEW_SAMPLES_def)

lemma overrun_iff:
  "valid_build N \<Longrightarrow> (of_nat (RING_SIZE N) \<le> (len :: 32 word)) = (RING_SIZE N \<le> unat len)"
  by (simp add: word_le_nat_alt unat_RING_SIZE)

lemma unat_remain:
  assumes "valid_build N" "unat (w :: 32 word) < RING_SIZE N"
  shows "unat (of_nat (RING_SIZE N) - w) = RING_SIZE N - unat w"
proof -
  have "w \<le> of_nat (RING_SIZE N)"
    using assms by (simp add: word_le_nat_alt unat_RING_SIZE)
  then show ?thesis
    using assms by (simp add: unat_sub unat_RING_SIZE)
qed

lemma threshold_reached:
  assumes "valid_build N" "RING_SIZE N \<le> unat len" "unat p + unat len < 2 ^ 32"
  shows "of_nat (MIN_NEW_SAMPLES N) \<le> p + (len :: 32 word)"
proof -
  have "unat (p + len) = unat p + unat len"
    using assms(3) by (simp add: unat_add_lem [THEN iffD1])
  moreover have "N \<le> RING_SIZE N"
    by (simp add: RING_SIZE_def)
  ultimately show ?thesis
    using assms(1,2) by (simp add: word_le_nat_alt unat_MIN_NEW_SAMPLES)
qed

lemma below_threshold:
  assumes "valid_build N" "\<not> of_nat (MIN_NEW_SAMPLES N) \<le> (p :: 32 word)"
  shows "unat p < Threshold N"
  using assms unat_MIN_NEW_SAMPLES [OF assms(1)]
  by (simp add: word_le_nat_alt Threshold_eq MIN_NEW_SAMPLES_eq)

lemma unat_sum_list:
  "unat (sum_list ws :: 32 word) = sum_list (map unat ws) mod 2 ^ 32"
proof (induction ws)
  case Nil
  then show ?case by simp
next
  case (Cons w ws)
  have "unat (w + sum_list ws) = (unat w + unat (sum_list ws)) mod 2 ^ 32"
    by (simp add: unat_word_ariths)
  also have "\<dots> = (unat w + sum_list (map unat ws) mod 2 ^ 32) mod 2 ^ 32"
    by (simp only: Cons.IH)
  also have "\<dots> = (unat w + sum_list (map unat ws)) mod 2 ^ 32"
    by (simp only: mod_add_right_eq)
  finally show ?case
    by simp
qed

lemma sint_unsigned_int:
  "sint (w :: 32 word) = (if unat w < 2 ^ 31 then int (unat w) else int (unat w) - 2 ^ 32)"
proof -
  have s: "sint w = (uint w + 2 ^ 31) mod 2 ^ 32 - 2 ^ 31"
    by (simp add: sint_uint signed_take_bit_eq_take_bit_shift take_bit_eq_mod)
  have b: "0 \<le> uint w" "uint w < 2 ^ 32"
    using uint_lt2p [of w] by simp_all
  show ?thesis
  proof (cases "unat w < 2 ^ 31")
    case True
    then have "int (unat w) < int (2 ^ 31)"
      by (simp only: of_nat_less_iff)
    then have "uint w < 2 ^ 31"
      by simp
    then have "(uint w + 2 ^ 31) mod 2 ^ 32 = uint w + 2 ^ 31"
      using b by simp
    then show ?thesis
      using True by (simp add: s)
  next
    case False
    then have "int (2 ^ 31) \<le> int (unat w)"
      by (simp only: of_nat_le_iff not_less)
    then have ge: "2 ^ 31 \<le> uint w"
      by simp
    have "(uint w + 2 ^ 31) mod 2 ^ 32 = (uint w + 2 ^ 31 - 2 ^ 32) mod 2 ^ 32"
      by (rule minus_mod_self2 [symmetric])
    also have "\<dots> = uint w + 2 ^ 31 - 2 ^ 32"
      using ge b by simp
    finally show ?thesis
      using False by (simp add: s)
  qed
qed

subsection \<open>Slots and offsets modulo the size of the ring\<close>

lemma mod_once: "C \<le> a \<Longrightarrow> a < C + C \<Longrightarrow> a mod C = a - (C :: nat)"
  by (simp add: le_mod_geq)

lemma ring_offset_of_slot:
  assumes "w < C" "j < C"
  shows "((w + j) mod C + C - w) mod C = (j :: nat)"
proof (cases "w + j < C")
  case True
  then have "(w + j) mod C + C - w = j + C"
    by simp
  then show ?thesis
    using assms by (simp only: mod_add_self2 mod_less)
next
  case False
  then have "(w + j) mod C = w + j - C"
    using assms by (simp add: mod_once)
  moreover have "w + j - C + C - w = j"
    using False by arith
  ultimately show ?thesis
    using assms by simp
qed

lemma ring_slot_of_offset:
  assumes "w < C" "i < C"
  shows "(w + (i + C - w) mod C) mod C = (i :: nat)"
proof (cases "w \<le> i")
  case True
  then have "i + C - w = (i - w) + C" "i - w < C"
    using assms by arith+
  then have "(i + C - w) mod C = i - w"
    by (simp only: mod_add_self2 mod_less)
  then show ?thesis
    using True assms by simp
next
  case False
  then have "i + C - w < C" "w + (i + C - w) = i + C"
    using assms by arith+
  then show ?thesis
    using assms by (simp only: mod_less mod_add_self2)
qed

lemma ring_last_slot:
  assumes "0 < L" "0 < C"
  shows "((w + L) mod C + C - 1) mod C = (w + (L - 1)) mod (C :: nat)"
proof -
  have "((w + L) mod C + C - 1) mod C = ((w + L) mod C + (C - 1)) mod C"
    using assms by simp
  also have "\<dots> = (w + L + (C - 1)) mod C"
    by (simp only: mod_add_left_eq)
  also have "w + L + (C - 1) = w + (L - 1) + C"
    using assms by arith
  also have "(w + (L - 1) + C) mod C = (w + (L - 1)) mod C"
    by (simp only: mod_add_self2)
  finally show ?thesis .
qed

subsection \<open>The last samples of a sequence\<close>

lemma length_last_n: "length (last_n n xs) = min n (length xs)"
  by (simp add: last_n_def min_def)

lemma last_n_last_n: "m \<le> n \<Longrightarrow> last_n m (last_n n xs) = last_n m xs"
proof -
  assume "m \<le> n"
  then have "length xs - (length xs - n) - m + (length xs - n) = length xs - m"
    by arith
  then show ?thesis
    by (simp add: last_n_def)
qed

lemma last_n_append: "m \<le> length ys \<Longrightarrow> last_n m (xs @ ys) = last_n m ys"
  by (simp add: last_n_def)

lemma last_n_full: "length xs = n \<Longrightarrow> last_n n (xs @ ys) = drop (length ys) (xs @ ys)"
  by (simp add: last_n_def)

lemma samples_append: "samples (as @ bs) = samples as @ samples bs"
  by (simp add: samples_def)

lemma length_samples:
  "batches_ok bs \<Longrightarrow> length (samples bs) = sum_list (map (unat \<circ> snd) bs)"
  by (induction bs) (auto simp add: batches_ok_def samples_def)

section \<open>The four branches of sndbuf_store\<close>

lemma store_overrun:
  assumes "valid_build N" "sndbuf_inv N s" "unat len \<le> length input" "RING_SIZE N \<le> unat len"
  shows "sndbuf_store N input len s =
     Inr (store_account N len
       (s\<lparr>ring_write := 0, ring := take (RING_SIZE N) (drop (unat len - RING_SIZE N) input)\<rparr>))"
  using assms
  by (simp add: sndbuf_store_def overrun_iff store_finish_def memcpy_def unat_RING_SIZE sndbuf_inv_def)

lemma store_short:
  assumes "valid_build N" "sndbuf_inv N s" "unat len \<le> length input"
    "unat (ring_write s) + unat len < RING_SIZE N"
  shows "sndbuf_store N input len s =
     Inr (store_account N len
       (s\<lparr>ring_write := ring_write s + len,
          ring := take (unat (ring_write s)) (ring s) @ take (unat len) input
                   @ drop (unat (ring_write s) + unat len) (ring s)\<rparr>))"
proof -
  let ?R = "of_nat (RING_SIZE N) - ring_write s"
  have r: "unat ?R = RING_SIZE N - unat (ring_write s)"
    using assms by (simp add: unat_remain sndbuf_inv_def)
  have a: "\<not> RING_SIZE N \<le> unat len"
    using assms by arith
  have "unat len < unat ?R"
    unfolding r using assms by arith
  then have b: "len < ?R"
    by (simp add: word_less_nat_alt)
  show ?thesis
    using assms a b
    by (simp add: sndbuf_store_def overrun_iff store_finish_def memcpy_def sndbuf_inv_def Let_def)
qed

lemma store_exact:
  assumes "valid_build N" "sndbuf_inv N s" "unat len \<le> length input"
    "unat (ring_write s) + unat len = RING_SIZE N" "unat len < RING_SIZE N"
  shows "sndbuf_store N input len s =
     Inr (store_account N len
       (s\<lparr>ring_write := 0,
          ring := take (unat (ring_write s)) (ring s) @ take (unat len) input\<rparr>))"
proof -
  let ?R = "of_nat (RING_SIZE N) - ring_write s"
  have r: "unat ?R = RING_SIZE N - unat (ring_write s)"
    using assms by (simp add: unat_remain sndbuf_inv_def)
  have "unat ?R = unat len"
    unfolding r using assms by arith
  then have e: "?R = len"
    by (simp add: word_unat_eq_iff)
  have a: "\<not> RING_SIZE N \<le> unat len"
    using assms by arith
  show ?thesis
    using assms a
    by (simp add: sndbuf_store_def overrun_iff store_finish_def memcpy_def sndbuf_inv_def e)
qed

lemma store_wrap:
  assumes "valid_build N" "sndbuf_inv N s" "unat len \<le> length input"
    "RING_SIZE N < unat (ring_write s) + unat len" "unat len < RING_SIZE N"
  shows "sndbuf_store N input len s =
     Inr (store_account N len
       (s\<lparr>ring_write := len - (of_nat (RING_SIZE N) - ring_write s),
          ring := take (unat (ring_write s))
                    (take (unat len - (RING_SIZE N - unat (ring_write s)))
                       (drop (RING_SIZE N - unat (ring_write s)) input)
                     @ drop (unat len - (RING_SIZE N - unat (ring_write s))) (ring s))
                  @ take (RING_SIZE N - unat (ring_write s)) input\<rparr>))"
proof -
  let ?R = "of_nat (RING_SIZE N) - ring_write s"
  have w: "unat (ring_write s) < RING_SIZE N" "length (ring s) = RING_SIZE N"
    using assms by (simp_all add: sndbuf_inv_def)
  have r: "unat ?R = RING_SIZE N - unat (ring_write s)"
    using assms by (simp add: unat_remain sndbuf_inv_def)
  have "unat ?R < unat len"
    unfolding r using assms w by arith
  then have lt: "?R < len"
    by (simp add: word_less_nat_alt)
  then have n: "unat (len - ?R) = unat len - (RING_SIZE N - unat (ring_write s))"
    using r by (simp add: unat_sub)
  have ne: "?R \<noteq> len" "\<not> len < ?R"
    using lt by auto
  have a: "\<not> RING_SIZE N \<le> unat len"
    using assms by arith
  have b1: "\<not> length input < RING_SIZE N - unat (ring_write s)
             + (unat len - (RING_SIZE N - unat (ring_write s)))"
    using assms w by arith
  have b2: "\<not> RING_SIZE N < unat len - (RING_SIZE N - unat (ring_write s))"
    using assms by arith
  have b3: "\<not> length input < RING_SIZE N - unat (ring_write s)"
    using assms by arith
  have b4: "unat (ring_write s) + (RING_SIZE N - unat (ring_write s)) = RING_SIZE N"
    using w by arith
  show ?thesis
    using assms(1) w a ne b1 b2 b3 b4
    by (simp add: sndbuf_store_def overrun_iff store_finish_def memcpy_def Let_def r n)
qed

lemma store_reads_below_len:
  assumes "valid_build N" "sndbuf_inv N s" "unat len \<le> length input"
  shows "sndbuf_store N (take (unat len) input) len s = sndbuf_store N input len s"
proof -
  define C w L where "C = RING_SIZE N" and "w = unat (ring_write s)" and "L = unat len"
  have w: "w < C"
    using assms by (simp add: sndbuf_inv_def C_def w_def)
  have t: "unat len \<le> length (take (unat len) input)"
    using assms(3) by simp
  consider (overrun) "C \<le> L" | (short) "w + L < C" | (exact) "w + L = C" "L < C"
    | (wrap) "C < w + L" "L < C"
    by arith
  then show ?thesis
  proof cases
    case overrun
    then have o: "RING_SIZE N \<le> unat len"
      by (simp add: C_def L_def)
    have "L - (L - C) = C"
      using overrun by arith
    then have "take C (drop (L - C) (take L input)) = take C (drop (L - C) input)"
      by (simp add: drop_take)
    then show ?thesis
      by (simp add: store_overrun [OF assms o] store_overrun [OF assms(1,2) t o] C_def L_def)
  next
    case short
    then have o: "unat (ring_write s) + unat len < RING_SIZE N"
      by (simp add: C_def L_def w_def)
    show ?thesis
      by (simp add: store_short [OF assms o] store_short [OF assms(1,2) t o])
  next
    case exact
    then have o: "unat (ring_write s) + unat len = RING_SIZE N" "unat len < RING_SIZE N"
      by (simp_all add: C_def L_def w_def)
    show ?thesis
      by (simp add: store_exact [OF assms o] store_exact [OF assms(1,2) t o])
  next
    case wrap
    then have o: "RING_SIZE N < unat (ring_write s) + unat len" "unat len < RING_SIZE N"
      by (simp_all add: C_def L_def w_def)
    have a: "RING_SIZE N - unat (ring_write s) \<le> unat len"
      using wrap w by (simp add: C_def L_def w_def)
    have e1: "take (unat len - (RING_SIZE N - unat (ring_write s)))
                (drop (RING_SIZE N - unat (ring_write s)) (take (unat len) input))
        = take (unat len - (RING_SIZE N - unat (ring_write s)))
            (drop (RING_SIZE N - unat (ring_write s)) input)"
      by (simp add: drop_take)
    have e2: "take (RING_SIZE N - unat (ring_write s)) (take (unat len) input)
        = take (RING_SIZE N - unat (ring_write s)) input"
      using a by (simp add: min_def)
    show ?thesis
      by (simp only: store_wrap [OF assms o] store_wrap [OF assms(1,2) t o] e1 e2)
  qed
qed

section \<open>What the calls compute\<close>

lemma store_account_fields [simp]:
  "ring (store_account N len s) = ring s"
  "ring_write (store_account N len s) = ring_write s"
  "data (store_account N len s) = data s"
  "ring_has (store_account N len s) = ring_has s + len"
  by (simp_all add: store_account_def Let_def)

lemma store_account_inv [simp]: "sndbuf_inv N (store_account N len s) = sndbuf_inv N s"
  by (simp add: sndbuf_inv_def)

lemma linearized_store_account [simp]: "linearized (store_account N len s) = linearized s"
  by (simp add: linearized_def)

lemma length_linearized: "length (linearized s) = length (ring s)"
  by (simp add: linearized_def)

lemma linearized_upd:
  "linearized (s\<lparr>ring_write := a, ring := b\<rparr>) = drop (unat a) b @ take (unat a) b"
  by (simp add: linearized_def)

lemma store_account_signalled:
  "signalled (store_account N len s) =
     (if of_nat (MIN_NEW_SAMPLES N) \<le> ring_has s + len \<and> signalled s = 0 then 1 else signalled s)"
  by (simp add: store_account_def Let_def)

lemma store_account_cond_signals:
  "cond_signals (store_account N len s) =
     (if of_nat (MIN_NEW_SAMPLES N) \<le> ring_has s + len \<and> signalled s = 0
      then cond_signals s + 1 else cond_signals s)"
  by (simp add: store_account_def Let_def)

lemma sndbuf_start_inv:
  "length d = RING_SIZE N \<Longrightarrow> valid_build N \<Longrightarrow> sndbuf_inv N (sndbuf_start N d)"
  by (simp add: sndbuf_inv_def sndbuf_start_def valid_build_def RING_SIZE_def)

lemma sndbuf_start_fields [simp]:
  "ring (sndbuf_start N d) = replicate (RING_SIZE N) 0"
  "ring_write (sndbuf_start N d) = 0"
  "signalled (sndbuf_start N d) = 0"
  "ring_has (sndbuf_start N d) = 0"
  "data (sndbuf_start N d) = d"
  "cond_signals (sndbuf_start N d) = 0"
  by (simp_all add: sndbuf_start_def)

lemma linearized_start:
  "linearized (sndbuf_start N d) = replicate (RING_SIZE N) 0"
  by (simp add: linearized_def)

subsection \<open>getNextFragment\<close>

lemma getNextFragment_Waits: "signalled s = 0 \<Longrightarrow> getNextFragment N s = Waits"
  by (simp add: getNextFragment_def)

lemma getNextFragment_returns:
  assumes "valid_build N" "sndbuf_inv N s" "signalled s \<noteq> 0"
  shows "getNextFragment N s =
     Returns (sint (ring_has s), s\<lparr>signalled := 0, data := linearized s, ring_has := 0\<rparr>)"
proof -
  have w: "unat (ring_write s) < RING_SIZE N" "length (ring s) = RING_SIZE N"
     "length (data s) = RING_SIZE N"
    using assms by (simp_all add: sndbuf_inv_def)
  have r: "unat (of_nat (RING_SIZE N) - ring_write s) = RING_SIZE N - unat (ring_write s)"
    using assms w by (simp add: unat_remain)
  have z: "(0 < ring_write s) = (0 < unat (ring_write s))"
    by (simp add: word_less_nat_alt)
  have b: "\<not> RING_SIZE N < RING_SIZE N - unat (ring_write s)"
    by arith
  show ?thesis
    using assms(3) w b
    by (simp add: getNextFragment_def Let_def memcpy_def r z linearized_def)
qed

lemma getNextFragment_no_fault:
  assumes "valid_build N" "sndbuf_inv N s"
  shows "getNextFragment N s \<noteq> Faults e"
proof (cases "signalled s = 0")
  case True
  then show ?thesis by (simp add: getNextFragment_Waits)
next
  case False
  then show ?thesis by (simp add: getNextFragment_returns [OF assms])
qed

lemma getNextFragment_changes:
  assumes "getNextFragment N s = Returns (c, s')"
  shows "ring s' = ring s" "ring_write s' = ring_write s" "c = sint (ring_has s)"
    "ring_has s' = 0"
    "signalled s' = 0" "cond_signals s' = cond_signals s"
    "s' = s\<lparr>signalled := 0, data := data s', ring_has := 0\<rparr>"
  using assms
  by (auto simp add: getNextFragment_def Let_def split: if_splits sum.splits)

subsection \<open>A store, in temporal order\<close>

lemma store_effect:
  assumes "valid_build N" "sndbuf_inv N s" "unat len \<le> length input"
  shows "\<exists>s'. sndbuf_store N input len s = Inr s' \<and> sndbuf_inv N s' \<and>
           linearized s' = drop (unat len) (linearized s @ take (unat len) input) \<and>
           ring_has s' = ring_has s + len \<and> data s' = data s"
proof -
  define C w L where "C = RING_SIZE N" and "w = unat (ring_write s)" and "L = unat len"
  have w: "w < C" "length (ring s) = C" "length (data s) = C"
    using assms by (simp_all add: sndbuf_inv_def C_def w_def)
  have C: "0 < C" "C < 2 ^ 32"
    using assms(1) by (simp_all add: valid_build_def RING_SIZE_def C_def)
  have L: "L \<le> length input"
    using assms(3) by (simp add: L_def)
  have lin: "linearized s = drop w (ring s) @ take w (ring s)"
    by (simp add: linearized_def w_def)
  have goal: "\<exists>s'. sndbuf_store N input len s = Inr s' \<and> sndbuf_inv N s' \<and>
           linearized s' = drop L (linearized s @ take L input) \<and>
           ring_has s' = ring_has s + len \<and> data s' = data s"
    if st: "sndbuf_store N input len s
              = Inr (store_account N len (s\<lparr>ring_write := nw, ring := r'\<rparr>))"
      and nw: "unat nw < C" and r': "length r' = C"
      and view: "drop (unat nw) r' @ take (unat nw) r' = drop L (linearized s @ take L input)"
    for nw r'
    using nw r' view w
    by (simp add: st linearized_upd sndbuf_inv_def flip: C_def)
  consider (overrun) "C \<le> L" | (short) "w + L < C" | (exact) "w + L = C" "L < C"
    | (wrap) "C < w + L" "L < C"
    by arith
  then have "\<exists>s'. sndbuf_store N input len s = Inr s' \<and> sndbuf_inv N s' \<and>
           linearized s' = drop L (linearized s @ take L input) \<and>
           ring_has s' = ring_has s + len \<and> data s' = data s"
  proof cases
    case overrun
    define r' where "r' = take C (drop (L - C) input)"
    have st: "sndbuf_store N input len s
        = Inr (store_account N len (s\<lparr>ring_write := 0, ring := r'\<rparr>))"
      using store_overrun [OF assms] overrun by (simp add: C_def L_def r'_def)
    have view: "drop (unat (0 :: 32 word)) r' @ take (unat (0 :: 32 word)) r'
        = drop L (linearized s @ take L input)"
      using overrun w by (simp add: lin drop_take r'_def)
    have "length r' = C"
      using overrun L by (simp add: r'_def)
    then show ?thesis
      using C by (intro goal [OF st _ _ view]) simp_all
  next
    case short
    define r' where "r' = take w (ring s) @ take L input @ drop (w + L) (ring s)"
    have u: "unat (ring_write s + len) = w + L"
      using short C by (simp add: unat_add_lem [THEN iffD1] w_def L_def)
    have "drop (w + L) r' @ take (w + L) r'
        = drop (w + L) (ring s) @ take w (ring s) @ take L input"
      using L short w by (simp add: r'_def)
    moreover have "drop L (linearized s @ take L input)
        = drop (w + L) (ring s) @ take w (ring s) @ take L input"
      using short w by (simp add: lin add.commute)
    ultimately have view: "drop (w + L) r' @ take (w + L) r'
        = drop L (linearized s @ take L input)"
      by simp
    have "length r' = C"
      using L short w by (simp add: r'_def)
    moreover have "sndbuf_store N input len s
        = Inr (store_account N len (s\<lparr>ring_write := ring_write s + len, ring := r'\<rparr>))"
      using store_short [OF assms] short by (simp add: C_def L_def w_def r'_def)
    ultimately show ?thesis
      using short view by (intro goal [where nw = "ring_write s + len" and r' = r']) (simp_all add: u)
  next
    case exact
    define r' where "r' = take w (ring s) @ take L input"
    have "drop L (linearized s @ take L input) = r'"
      using exact w by (simp add: lin r'_def)
    moreover have "length r' = C"
      using L exact w by (simp add: r'_def)
    moreover have "sndbuf_store N input len s
        = Inr (store_account N len (s\<lparr>ring_write := 0, ring := r'\<rparr>))"
      using store_exact [OF assms] exact by (simp add: C_def L_def w_def r'_def)
    ultimately show ?thesis
      using C by (intro goal [where nw = 0 and r' = r']) simp_all
  next
    case wrap
    define rem new where "rem = C - w" and "new = L - rem"
    define A where "A = take new (drop rem input)"
    define r' where "r' = take w (A @ drop new (ring s)) @ take rem input"
    define nw where "nw = len - (of_nat C - ring_write s)"
    have nn: "new < w" "rem + new = L" "w + rem = C" "rem \<le> L"
      using wrap w by (simp_all add: rem_def new_def)
    have remw: "unat (of_nat C - ring_write s) = rem"
      using assms(1) w by (simp add: unat_remain C_def w_def rem_def)
    then have "of_nat C - ring_write s \<le> len"
      using nn by (simp add: word_le_nat_alt L_def)
    then have new: "unat nw = new"
      by (simp add: nw_def unat_sub remw new_def L_def)
    have lenA: "length A = new"
      using L nn by (simp add: A_def)
    have r'': "r' = A @ take (w - new) (drop new (ring s)) @ take rem input"
      using lenA nn by (simp add: r'_def)
    have "take rem input @ A = take (rem + new) input"
      by (simp add: take_add A_def)
    then have B: "take rem input @ A = take L input"
      using nn by simp
    define D where "D = drop w (ring s)"
    have lenD: "length D = rem"
      using w by (simp add: D_def rem_def)
    have "drop L (D @ take w (ring s) @ take L input)
        = drop new (take w (ring s)) @ take L input"
      using w nn lenD by (simp add: new_def)
    then have "drop L (linearized s @ take L input)
        = drop new (take w (ring s)) @ take L input"
      by (simp add: lin D_def)
    moreover have "drop new r' @ take new r' = take (w - new) (drop new (ring s)) @ take L input"
      unfolding r'' using lenA B by simp
    ultimately have view: "drop new r' @ take new r' = drop L (linearized s @ take L input)"
      by (simp add: drop_take)
    have len': "length r' = C"
      unfolding r'' using lenA nn w L by simp
    have "sndbuf_store N input len s
        = Inr (store_account N len (s\<lparr>ring_write := nw, ring := r'\<rparr>))"
      using store_wrap [OF assms] wrap
      by (simp add: C_def L_def w_def nw_def r'_def A_def rem_def new_def)
    then show ?thesis
      using nn view len' new
      by (intro goal [where nw = nw and r' = r']) simp_all
  qed
  then show ?thesis
    by (simp add: L_def)
qed

subsection \<open>A store, slot by slot\<close>

lemma store_nth:
  assumes "valid_build N" "sndbuf_inv N s" "unat len \<le> length input" "unat len < RING_SIZE N"
  shows "\<exists>s'. sndbuf_store N input len s = Inr s' \<and> length (ring s') = RING_SIZE N \<and>
     unat (ring_write s') = (unat (ring_write s) + unat len) mod RING_SIZE N \<and>
     (\<forall>i < RING_SIZE N. ring s' ! i =
        (if (i + RING_SIZE N - unat (ring_write s)) mod RING_SIZE N < unat len
         then input ! ((i + RING_SIZE N - unat (ring_write s)) mod RING_SIZE N)
         else ring s ! i))"
proof -
  define C w L where "C = RING_SIZE N" and "w = unat (ring_write s)" and "L = unat len"
  have w: "w < C" "length (ring s) = C"
    using assms by (simp_all add: sndbuf_inv_def C_def w_def)
  have C: "0 < C" "C < 2 ^ 32"
    using assms(1) by (simp_all add: valid_build_def RING_SIZE_def C_def)
  have L: "L \<le> length input" "L < C"
    using assms(3,4) by (simp_all add: L_def C_def)
  have off: "(i + C - w) mod C = (if w \<le> i then i - w else i + C - w)" if "i < C" for i
  proof (cases "w \<le> i")
    case True
    then have "i + C - w = (i - w) + C" "i - w < C"
      using that by arith+
    then have "(i + C - w) mod C = i - w"
      by (simp only: mod_add_self2 mod_less)
    then show ?thesis
      using True by simp
  next
    case False
    then have "i + C - w < C"
      using w by arith
    then show ?thesis
      using False by simp
  qed
  have goal: "\<exists>s'. sndbuf_store N input len s = Inr s' \<and> length (ring s') = C \<and>
     unat (ring_write s') = (w + L) mod C \<and>
     (\<forall>i < C. ring s' ! i =
        (if (i + C - w) mod C < L then input ! ((i + C - w) mod C) else ring s ! i))"
    if st: "sndbuf_store N input len s
              = Inr (store_account N len (s\<lparr>ring_write := nw, ring := r'\<rparr>))"
      and nw: "unat nw = (w + L) mod C" and r': "length r' = C"
      and nth: "\<And>i. i < C \<Longrightarrow> r' ! i =
          (if w \<le> i then (if i - w < L then input ! (i - w) else ring s ! i)
           else (if i + C - w < L then input ! (i + C - w) else ring s ! i))"
    for nw r'
    using nw r' nth off by (simp add: st)
  consider (short) "w + L < C" | (exact) "w + L = C" | (wrap) "C < w + L"
    by arith
  then have "\<exists>s'. sndbuf_store N input len s = Inr s' \<and> length (ring s') = C \<and>
     unat (ring_write s') = (w + L) mod C \<and>
     (\<forall>i < C. ring s' ! i =
        (if (i + C - w) mod C < L then input ! ((i + C - w) mod C) else ring s ! i))"
  proof cases
    case short
    define r' where "r' = take w (ring s) @ take L input @ drop (w + L) (ring s)"
    have st: "sndbuf_store N input len s
        = Inr (store_account N len (s\<lparr>ring_write := ring_write s + len, ring := r'\<rparr>))"
      using store_short [OF assms(1-3)] short by (simp add: C_def L_def w_def r'_def)
    have u: "unat (ring_write s + len) = (w + L) mod C"
      using short C by (simp add: unat_add_lem [THEN iffD1] w_def L_def)
    have len: "length r' = C"
      using L short w by (simp add: r'_def)
    have nth: "r' ! i =
          (if w \<le> i then (if i - w < L then input ! (i - w) else ring s ! i)
           else (if i + C - w < L then input ! (i + C - w) else ring s ! i))" if "i < C" for i
    proof -
      consider "i < w" | "w \<le> i" "i - w < L" | "w \<le> i" "\<not> i - w < L"
        by arith
      then show ?thesis
      proof cases
        case 1
        then have "\<not> i + C - w < L"
          using short by arith
        then show ?thesis
          using 1 w by (simp add: r'_def nth_append)
      next
        case 2
        then show ?thesis
          using w L by (simp add: r'_def nth_append)
      next
        case 3
        then have "w + L + (i - w - L) = i"
          by arith
        then show ?thesis
          using 3 w L that by (simp add: r'_def nth_append)
      qed
    qed
    show ?thesis
      by (rule goal [OF st u len nth])
  next
    case exact
    define r' where "r' = take w (ring s) @ take L input"
    have st: "sndbuf_store N input len s
        = Inr (store_account N len (s\<lparr>ring_write := 0, ring := r'\<rparr>))"
      using store_exact [OF assms(1-3)] exact L by (simp add: C_def L_def w_def r'_def)
    have u: "unat (0 :: 32 word) = (w + L) mod C"
      using exact by simp
    have len: "length r' = C"
      using L exact w by (simp add: r'_def)
    have nth: "r' ! i =
          (if w \<le> i then (if i - w < L then input ! (i - w) else ring s ! i)
           else (if i + C - w < L then input ! (i + C - w) else ring s ! i))" if "i < C" for i
    proof (cases "i < w")
      case True
      then have "\<not> i + C - w < L"
        using exact by arith
      then show ?thesis
        using True w by (simp add: r'_def nth_append)
    next
      case False
      then have "i - w < L"
        using exact that by arith
      then show ?thesis
        using False w L by (simp add: r'_def nth_append)
    qed
    show ?thesis
      by (rule goal [OF st u len nth])
  next
    case wrap
    define rem new where "rem = C - w" and "new = L - rem"
    define A where "A = take new (drop rem input)"
    define r' where "r' = take w (A @ drop new (ring s)) @ take rem input"
    define nw where "nw = len - (of_nat C - ring_write s)"
    have nn: "new < w" "rem + new = L" "w + rem = C" "rem \<le> L"
      using wrap w L by (simp_all add: rem_def new_def)
    have remw: "unat (of_nat C - ring_write s) = rem"
      using assms(1) w by (simp add: unat_remain C_def w_def rem_def)
    then have "of_nat C - ring_write s \<le> len"
      using nn by (simp add: word_le_nat_alt L_def)
    then have new: "unat nw = new"
      by (simp add: nw_def unat_sub remw new_def L_def)
    have "C \<le> w + L" "w + L - C < C" "w + L - C = new"
      using wrap w L nn by arith+
    then have u: "unat nw = (w + L) mod C"
      using new by (simp add: le_mod_geq)
    have lenA: "length A = new"
      using L nn by (simp add: A_def)
    have r'': "r' = A @ take (w - new) (drop new (ring s)) @ take rem input"
      using lenA nn by (simp add: r'_def)
    have len: "length r' = C"
      unfolding r'' using lenA nn w L by simp
    have st: "sndbuf_store N input len s
        = Inr (store_account N len (s\<lparr>ring_write := nw, ring := r'\<rparr>))"
      using store_wrap [OF assms(1-3) _ assms(4)] wrap
      by (simp add: C_def L_def w_def nw_def r'_def A_def rem_def new_def)
    have nth: "r' ! i =
          (if w \<le> i then (if i - w < L then input ! (i - w) else ring s ! i)
           else (if i + C - w < L then input ! (i + C - w) else ring s ! i))" if "i < C" for i
    proof -
      consider "i < new" | "new \<le> i" "i < w" | "w \<le> i"
        by arith
      then show ?thesis
      proof cases
        case 1
        then have a: "i + C - w < L" "i + C - w = rem + i" "\<not> w \<le> i"
          using nn by arith+
        have "r' ! i = A ! i"
          unfolding r'' using 1 lenA by (simp add: nth_append)
        also have "\<dots> = input ! (rem + i)"
          using 1 L nn by (simp add: A_def)
        finally show ?thesis
          using a by simp
      next
        case 2
        then have a: "\<not> i + C - w < L" "\<not> w \<le> i" "i - new < w - new" "new + (i - new) = i"
          using nn by arith+
        have "r' ! i = take (w - new) (drop new (ring s)) ! (i - new)"
          unfolding r'' using 2 lenA a w by (simp add: nth_append)
        also have "\<dots> = ring s ! i"
          using a w by simp
        finally show ?thesis
          using a by simp
      next
        case 3
        then have a: "i - w < L" "i - w < rem" "\<not> i < new" "\<not> i - new < w - new"
            "i - new - (w - new) = i - w"
          using nn that by arith+
        have "r' ! i = take rem input ! (i - w)"
          unfolding r'' using 3 lenA a w nn by (simp add: nth_append)
        also have "\<dots> = input ! (i - w)"
          using a by simp
        finally show ?thesis
          using 3 a by simp
      qed
    qed
    show ?thesis
      by (rule goal [OF st u len nth])
  qed
  then show ?thesis
    unfolding C_def w_def L_def .
qed

subsection \<open>The signal of a store\<close>

lemma store_finish_account:
  assumes "store_finish N input len ip op remain s = Inr s'"
  shows "\<exists>r. s' = store_account N len (s\<lparr>ring := r\<rparr>)"
  using assms by (auto simp add: store_finish_def split: sum.splits)

lemma store_account_form:
  assumes "sndbuf_store N input len s = Inr s'"
  shows "\<exists>nw r. s' = store_account N len (s\<lparr>ring_write := nw, ring := r\<rparr>)"
proof -
  have a: "\<exists>nw r. s' = store_account N len (s\<lparr>ring_write := nw, ring := r\<rparr>)"
    if "store_finish N input len ip op remain (s\<lparr>ring_write := nw\<rparr>) = Inr s'"
    for ip op remain nw
    using store_finish_account [OF that] by auto
  have b: "\<exists>nw r. s' = store_account N len (s\<lparr>ring_write := nw, ring := r\<rparr>)"
    if "store_finish N input len ip op remain (s\<lparr>ring := r0, ring_write := nw\<rparr>) = Inr s'"
    for ip op remain nw r0
    using store_finish_account [OF that] by auto
  show ?thesis
    using assms a b
    by (auto simp add: sndbuf_store_def Let_def split: if_splits sum.splits)
qed

lemma store_signal:
  assumes "sndbuf_store N input len s = Inr s'"
  shows "signalled s' =
           (if of_nat (MIN_NEW_SAMPLES N) \<le> ring_has s + len \<and> signalled s = 0
            then 1 else signalled s)"
    and "cond_signals s' =
           (if of_nat (MIN_NEW_SAMPLES N) \<le> ring_has s + len \<and> signalled s = 0
            then cond_signals s + 1 else cond_signals s)"
    and "ring_has s' = ring_has s + len"
    and "data s' = data s"
  using store_account_form [OF assms]
  by (auto simp add: store_account_signalled store_account_cond_signals)

section \<open>Sequences of calls\<close>

lemma store_all_signals:
  assumes "store_all N bs s = Inr s'"
  shows "cond_signals s' = cond_signals s + (if signalled s = 0 \<and> signalled s' \<noteq> 0 then 1 else 0)
         \<and> (signalled s \<noteq> 0 \<longrightarrow> signalled s' = signalled s)
         \<and> (signalled s' = 0 \<or> signalled s' = 1 \<or> signalled s' = signalled s)"
  using assms
proof (induction bs arbitrary: s)
  case Nil
  then show ?case by simp
next
  case (Cons b bs)
  obtain input len where b: "b = (input, len)"
    by (cases b)
  from Cons.prems obtain s1 where s1: "sndbuf_store N input len s = Inr s1"
    and rest: "store_all N bs s1 = Inr s'"
    by (auto simp add: b split: sum.splits)
  note ih = Cons.IH [OF rest]
  show ?case
    using ih store_signal(1,2) [OF s1]
    by (auto split: if_splits)
qed

lemma store_all_stays:
  assumes "store_all N bs s = Inr s'" "bs \<noteq> []" "pending_stays N (ring_has s) (map snd bs)"
  shows "signalled s' \<noteq> 0"
proof -
  obtain b bs' where bs: "bs = b # bs'"
    using assms(2) by (cases bs) auto
  obtain input len where b: "b = (input, len)"
    by (cases b)
  from assms(1) obtain s1 where s1: "sndbuf_store N input len s = Inr s1"
    and rest: "store_all N bs' s1 = Inr s'"
    by (auto simp add: bs b split: sum.splits)
  have "signalled s1 \<noteq> 0"
    using assms(3) store_signal(1) [OF s1] by (auto simp add: bs b)
  then show ?thesis
    using store_all_signals [OF rest] by simp
qed

lemma store_all_effect:
  assumes "valid_build N" "sndbuf_inv N s" "batches_ok bs"
  shows "\<exists>s'. store_all N bs s = Inr s' \<and> sndbuf_inv N s' \<and>
           linearized s' = drop (length (samples bs)) (linearized s @ samples bs) \<and>
           ring_has s' = ring_has s + sum_list (map snd bs) \<and> data s' = data s"
  using assms(2,3)
proof (induction bs arbitrary: s)
  case Nil
  then show ?case
    by (simp add: samples_def)
next
  case (Cons b bs)
  obtain input len where b: "b = (input, len)"
    by (cases b)
  have ok: "unat len \<le> length input" "batches_ok bs"
    using Cons.prems(2) by (simp_all add: batches_ok_def b)
  obtain s1 where s1: "sndbuf_store N input len s = Inr s1" "sndbuf_inv N s1"
    and lin1: "linearized s1 = drop (unat len) (linearized s @ take (unat len) input)"
    and has1: "ring_has s1 = ring_has s + len" and data1: "data s1 = data s"
    using store_effect [OF assms(1) Cons.prems(1) ok(1)] by blast
  obtain s' where s': "store_all N bs s1 = Inr s'" "sndbuf_inv N s'"
    and lin': "linearized s' = drop (length (samples bs)) (linearized s1 @ samples bs)"
    and has': "ring_has s' = ring_has s1 + sum_list (map snd bs)" and data': "data s' = data s1"
    using Cons.IH [OF s1(2) ok(2)] by blast
  define B K where "B = take (unat len) input" and "K = length (samples bs)"
  have lenB: "length B = unat len"
    using ok(1) by (simp add: B_def)
  have sm: "samples (b # bs) = B @ samples bs"
    by (simp add: samples_def b B_def)
  have smlen: "length (samples (b # bs)) = unat len + K"
    by (simp add: sm lenB K_def)
  have e1: "drop (unat len) (linearized s @ B) @ samples bs
      = drop (unat len) ((linearized s @ B) @ samples bs)"
    using lenB by simp
  have "linearized s' = drop K (drop (unat len) (linearized s @ B) @ samples bs)"
    by (simp only: lin' lin1 B_def K_def)
  also have "\<dots> = drop (K + unat len) (linearized s @ B @ samples bs)"
    by (simp only: e1 drop_drop append_assoc)
  also have "K + unat len = length (samples (b # bs))"
    by (simp only: smlen add.commute [of K])
  finally have "linearized s'
      = drop (length (samples (b # bs))) (linearized s @ samples (b # bs))"
    by (simp only: sm)
  then show ?case
    using s' s1(1) has' has1 data' data1 by (simp add: b add.assoc)
qed

lemma store_all_reached:
  assumes "store_all N bs s = Inr s'" "bs \<noteq> []" "of_nat (MIN_NEW_SAMPLES N) \<le> ring_has s'"
  shows "signalled s' \<noteq> 0"
  using assms
proof (induction bs arbitrary: s)
  case Nil
  then show ?case by simp
next
  case (Cons b bs)
  obtain input len where b: "b = (input, len)"
    by (cases b)
  from Cons.prems(1) obtain s1 where s1: "sndbuf_store N input len s = Inr s1"
    and rest: "store_all N bs s1 = Inr s'"
    by (auto simp add: b split: sum.splits)
  show ?case
  proof (cases "bs = []")
    case True
    then have "s' = s1"
      using rest by simp
    then show ?thesis
      using store_signal(1,3) [OF s1] Cons.prems(3) by (auto split: if_splits)
  next
    case False
    then show ?thesis
      using Cons.IH [OF rest] Cons.prems(3) by simp
  qed
qed

lemma store_all_signalled:
  assumes "valid_build N" "sndbuf_inv N s" "batches_ok bs" "ring_has s = 0"
    and "store_all N bs s = Inr s'"
    and "MIN_NEW_SAMPLES N \<le> length (samples bs)" "length (samples bs) < 2 ^ 32"
  shows "signalled s' \<noteq> 0"
proof -
  have "ring_has s' = sum_list (map snd bs)"
    using store_all_effect [OF assms(1-3)] assms(4,5) by auto
  then have "unat (ring_has s') = sum_list (map unat (map snd bs)) mod 2 ^ 32"
    by (simp only: unat_sum_list)
  then have "unat (ring_has s') = length (samples bs)"
    using assms(7) by (simp add: length_samples [OF assms(3)])
  moreover have "N \<le> length (samples bs)"
    using assms(6) by (simp add: MIN_NEW_SAMPLES_eq)
  ultimately have "of_nat (MIN_NEW_SAMPLES N) \<le> ring_has s'"
    using assms(1) by (simp add: word_le_nat_alt unat_MIN_NEW_SAMPLES)
  moreover have "bs \<noteq> []"
    using assms(1,6) by (auto simp add: samples_def MIN_NEW_SAMPLES_eq valid_build_def)
  ultimately show ?thesis
    using store_all_reached [OF assms(5)] by simp
qed

lemma count_can_exceed:
  assumes "valid_build N" "length d = RING_SIZE N"
  shows "\<exists>bs s1 c s2. batches_ok bs \<and>
           store_all N bs (sndbuf_start N (d :: 'a::zero list)) = Inr s1 \<and>
           getNextFragment N s1 = Returns (c, s2) \<and> int (RING_SIZE N) < c"
proof -
  define len :: "32 word" where "len = of_nat (RING_SIZE N + 1)"
  define input :: "'a list" where "input = replicate (RING_SIZE N + 1) 0"
  have u: "unat len = RING_SIZE N + 1"
    unfolding len_def unat_of_nat using assms(1) by (simp add: valid_build_def)
  have ok: "unat len \<le> length input"
    by (simp add: u input_def)
  note inv = sndbuf_start_inv [OF assms(2,1)]
  obtain s1 where s1: "sndbuf_store N input len (sndbuf_start N d) = Inr s1" "sndbuf_inv N s1"
    and has: "ring_has s1 = ring_has (sndbuf_start N d) + len"
    using store_effect [OF assms(1) inv ok] by blast
  have "of_nat (MIN_NEW_SAMPLES N) \<le> 0 + len"
    using assms(1) u by (intro threshold_reached) (simp_all add: valid_build_def)
  then have "signalled s1 \<noteq> 0"
    using store_signal(1) [OF s1(1)] by simp
  then have "getNextFragment N s1
      = Returns (sint (ring_has s1),
          s1\<lparr>signalled := 0, data := linearized s1, ring_has := 0\<rparr>)"
    by (rule getNextFragment_returns [OF assms(1) s1(2)])
  moreover have "N * 2 + 1 < 2 ^ 31"
    using assms(1) unfolding valid_build_def RING_SIZE_def by simp
  then have "unat (ring_has s1) < 2 ^ 31"
    by (simp add: has u RING_SIZE_def)
  then have "int (RING_SIZE N) < sint (ring_has s1)"
    by (simp add: sint_unsigned_int has u)
  moreover have "batches_ok [(input, len)]"
    using ok by (simp add: batches_ok_def)
  moreover have "store_all N [(input, len)] (sndbuf_start N d) = Inr s1"
    by (simp add: s1(1))
  ultimately show ?thesis
    by blast
qed

lemma run_invariant:
  assumes "valid_build N" "sndbuf_inv N s0" "list_all call_ok cs" "run N cs s0 = Returns s"
    and "signalled s0 = 0 \<or> signalled s0 = 1"
    and "signalled s0 = 0 \<longrightarrow> unat (ring_has s0) < Threshold N"
  shows "sndbuf_inv N s \<and> (signalled s = 0 \<or> signalled s = 1) \<and>
         (signalled s = 0 \<longrightarrow> unat (ring_has s) < Threshold N) \<and>
         spec_ready N cs (ring_has s0, signalled s0 = 1) = (ring_has s, signalled s = 1)"
  using assms(2-)
proof (induction cs arbitrary: s0)
  case Nil
  then show ?case by simp
next
  case (Cons c cs)
  show ?case
  proof (cases c)
    case (Store input len)
    have ok: "unat len \<le> length input" "list_all call_ok cs"
      using Cons.prems(2) by (simp_all add: Store)
    obtain s1 where s1: "sndbuf_store N input len s0 = Inr s1" "sndbuf_inv N s1"
      using store_effect [OF assms(1) Cons.prems(1) ok(1)] by blast
    have rest: "run N cs s1 = Returns s"
      using Cons.prems(3) by (simp add: Store s1(1))
    note sg = store_signal(1,3) [OF s1(1)]
    have a: "signalled s1 = 0 \<or> signalled s1 = 1"
      using Cons.prems(4) by (auto simp add: sg)
    have b: "signalled s1 = 0 \<longrightarrow> unat (ring_has s1) < Threshold N"
      using below_threshold [OF assms(1), of "ring_has s0 + len"] Cons.prems(4)
      by (auto simp add: sg)
    have c: "(signalled s1 = 1)
        = (signalled s0 = 1 \<or> of_nat (Threshold N) \<le> ring_has s0 + len)"
      using Cons.prems(4) by (auto simp add: sg Threshold_eq)
    show ?thesis
      using Cons.IH [OF s1(2) ok(2) rest a b] by (simp add: Store sg(2) c)
  next
    case Take
    have ok: "list_all call_ok cs"
      using Cons.prems(2) by simp
    have sig: "signalled s0 \<noteq> 0"
      using Cons.prems(3) by (auto simp add: Take getNextFragment_Waits)
    define s1 where "s1 = s0\<lparr>signalled := 0, data := linearized s0, ring_has := 0\<rparr>"
    have g: "getNextFragment N s0 = Returns (sint (ring_has s0), s1)"
      using getNextFragment_returns [OF assms(1) Cons.prems(1) sig] by (simp add: s1_def)
    have rest: "run N cs s1 = Returns s"
      using Cons.prems(3) by (simp add: Take g)
    have inv1: "sndbuf_inv N s1"
      using Cons.prems(1) by (simp add: s1_def sndbuf_inv_def length_linearized)
    have a: "signalled s1 = 0 \<or> signalled s1 = 1"
      by (simp add: s1_def)
    have b: "signalled s1 = 0 \<longrightarrow> unat (ring_has s1) < Threshold N"
      using assms(1) by (simp add: s1_def Threshold_def RING_SIZE_def valid_build_def)
    show ?thesis
      using Cons.IH [OF inv1 ok rest a b] by (simp add: Take s1_def)
  qed
qed

section \<open>A ring of four samples\<close>

lemma ex_start:
  "sndbuf_start 2 [0, 0, 0, 0 :: int] =
     \<lparr>ring = [0, 0, 0, 0], ring_write = 0, signalled = 0, ring_has = 0,
      data = [0, 0, 0, 0], cond_signals = 0\<rparr>"
  by (simp add: sndbuf_start_def RING_SIZE_def eval_nat_numeral)

lemma ex_valid: "valid_build 2" "RING_SIZE 2 = 4"
  "sndbuf_inv 2 (sndbuf_start 2 [0, 0, 0, 0 :: int])"
  "batches_ok [([1, 2 :: int], 2), ([3, 4, 5], 3)]"
  by (simp_all add: valid_build_def RING_SIZE_def sndbuf_inv_def batches_ok_def)

lemma ex_store_first:
  "sndbuf_store 2 [1, 2] 2 (sndbuf_start 2 [0, 0, 0, 0 :: int]) =
     Inr \<lparr>ring = [1, 2, 0, 0], ring_write = 2, signalled = 1, ring_has = 2,
          data = [0, 0, 0, 0], cond_signals = 1\<rparr>"
  unfolding ex_start
  by (simp add: sndbuf_store_def store_finish_def memcpy_def store_account_def Let_def
      RING_SIZE_def MIN_NEW_SAMPLES_def)

lemma ex_store_second:
  "sndbuf_store 2 [3, 4, 5] 3
     \<lparr>ring = [1, 2, 0, 0 :: int], ring_write = 2, signalled = 1, ring_has = 2,
      data = [0, 0, 0, 0], cond_signals = 1\<rparr> =
     Inr \<lparr>ring = [5, 2, 3, 4], ring_write = 1, signalled = 1, ring_has = 5,
          data = [0, 0, 0, 0], cond_signals = 1\<rparr>"
  by (simp add: sndbuf_store_def store_finish_def memcpy_def store_account_def Let_def
      RING_SIZE_def MIN_NEW_SAMPLES_def word_le_nat_alt word_less_nat_alt)

lemma ex_store_all:
  "store_all 2 [([1, 2], 2), ([3, 4, 5], 3)] (sndbuf_start 2 [0, 0, 0, 0 :: int]) =
     Inr \<lparr>ring = [5, 2, 3, 4], ring_write = 1, signalled = 1, ring_has = 5,
          data = [0, 0, 0, 0], cond_signals = 1\<rparr>"
  by (simp only: store_all.simps ex_store_first ex_store_second sum.case)

lemma ex_samples:
  "samples [([1, 2 :: int], 2), ([3, 4, 5], 3)] = [1, 2, 3, 4, 5]"
  "samples [([3, 4, 5 :: int], 3)] = [3, 4, 5]"
  by (simp_all add: samples_def)

lemma ex_drain:
  "getNextFragment 2
     \<lparr>ring = [1, 2, 0, 0 :: int], ring_write = 2, signalled = 1, ring_has = 2,
      data = [0, 0, 0, 0], cond_signals = 1\<rparr> =
   Returns (2, \<lparr>ring = [1, 2, 0, 0], ring_write = 2, signalled = 0, ring_has = 0,
      data = [0, 0, 1, 2], cond_signals = 1\<rparr>)"
  by (simp add: getNextFragment_def Let_def memcpy_def RING_SIZE_def)

lemma ex_store_after_drain:
  "sndbuf_store 2 [3, 4, 5] 3
     \<lparr>ring = [1, 2, 0, 0 :: int], ring_write = 2, signalled = 0, ring_has = 0,
      data = [0, 0, 1, 2], cond_signals = 1\<rparr> =
     Inr \<lparr>ring = [5, 2, 3, 4], ring_write = 1, signalled = 1, ring_has = 3,
          data = [0, 0, 1, 2], cond_signals = 2\<rparr>"
  by (simp add: sndbuf_store_def store_finish_def memcpy_def store_account_def Let_def
      RING_SIZE_def MIN_NEW_SAMPLES_def word_le_nat_alt word_less_nat_alt)

lemma ex_run:
  "run 2 [Store [1, 2] 2, Take, Store [3, 4, 5] 3] (sndbuf_start 2 [0, 0, 0, 0 :: int]) =
     Returns \<lparr>ring = [5, 2, 3, 4], ring_write = 1, signalled = 1, ring_has = 3,
          data = [0, 0, 1, 2], cond_signals = 2\<rparr>"
  by (simp only: run.simps step.simps ex_store_first ex_drain ex_store_after_drain
      sum.case outcome.case prod.case)

section \<open>The claims\<close>

subsection \<open>C1: a batch of at least the capacity\<close>

text \<open>
  As written, with the drain returning after every such store, C1 fails. The count
  \<open>ring_has\<close> is an \<open>unsigned int\<close> and \<open>ring_has += len\<close> wraps around (the source
  says so at line 135): after a store of one sample the count is 1 and \<open>signalled\<close>
  is 0, a batch of \<open>2 ^ 32 - 1\<close> samples then brings the count to 0, no signal is
  sent, and the call of \<open>getNextFragment\<close> right after it waits, although the ring
  holds the last four samples of the batch.
\<close>

theorem store_overrun_drain_counterexample:
  "sndbuf_store 2 [7] 1 (sndbuf_start 2 [0, 0, 0, 0 :: int]) =
     Inr \<lparr>ring = [7, 0, 0, 0], ring_write = 1, signalled = 0, ring_has = 1,
          data = [0, 0, 0, 0], cond_signals = 0\<rparr> \<and>
   RING_SIZE 2 \<le> unat (4294967295 :: 32 word) \<and>
   unat (4294967295 :: 32 word) \<le> length (replicate 4294967295 (7 :: int)) \<and>
   sndbuf_store 2 (replicate 4294967295 7) 4294967295
     \<lparr>ring = [7, 0, 0, 0 :: int], ring_write = 1, signalled = 0, ring_has = 1,
      data = [0, 0, 0, 0], cond_signals = 0\<rparr> =
     Inr \<lparr>ring = [7, 7, 7, 7], ring_write = 0, signalled = 0, ring_has = 0,
          data = [0, 0, 0, 0], cond_signals = 0\<rparr> \<and>
   getNextFragment 2
     \<lparr>ring = [7, 7, 7, 7 :: int], ring_write = 0, signalled = 0, ring_has = 0,
      data = [0, 0, 0, 0], cond_signals = 0\<rparr> = Waits"
proof -
  let ?s0 = "\<lparr>ring = [7, 0, 0, 0 :: int], ring_write = 1, signalled = 0, ring_has = 1,
      data = [0, 0, 0, 0], cond_signals = 0\<rparr>"
  let ?s1 = "\<lparr>ring = [7, 7, 7, 7 :: int], ring_write = 0, signalled = 0, ring_has = 0,
      data = [0, 0, 0, 0], cond_signals = 0\<rparr>"
  have a: "sndbuf_store 2 [7] 1 (sndbuf_start 2 [0, 0, 0, 0 :: int]) = Inr ?s0"
    unfolding ex_start
    by (simp add: sndbuf_store_def store_finish_def memcpy_def store_account_def Let_def
        RING_SIZE_def MIN_NEW_SAMPLES_def word_le_nat_alt word_less_nat_alt)
  have i: "sndbuf_inv 2 ?s0"
    by (simp add: sndbuf_inv_def RING_SIZE_def)
  have l: "unat (4294967295 :: 32 word) \<le> length (replicate 4294967295 (7 :: int))"
    by simp
  have o: "RING_SIZE 2 \<le> unat (4294967295 :: 32 word)"
    by (simp add: RING_SIZE_def)
  have four: "replicate 4 (7 :: int) = [7, 7, 7, 7]"
    by (simp add: eval_nat_numeral)
  have r: "take (RING_SIZE 2)
      (drop (unat (4294967295 :: 32 word) - RING_SIZE 2) (replicate 4294967295 (7 :: int)))
        = [7, 7, 7, 7]"
    by (simp add: RING_SIZE_def four)
  have b: "sndbuf_store 2 (replicate 4294967295 7) 4294967295 ?s0 = Inr ?s1"
    unfolding store_overrun [OF ex_valid(1) i l o] r
    by (simp add: store_account_def Let_def MIN_NEW_SAMPLES_def RING_SIZE_def word_le_nat_alt)
  have c: "getNextFragment 2 ?s1 = Waits"
    by (simp add: getNextFragment_def)
  show ?thesis
    using a l o b c by blast
qed

text \<open>
  C1, amended. A store of \<open>len \<ge> RING_SIZE\<close> samples leaves in the ring the last
  \<open>RING_SIZE\<close> samples of the batch, slot \<open>i\<close> holding \<open>input[len - RING_SIZE + i]\<close>,
  and sets \<open>ring_write\<close> to 0. A call of \<open>getNextFragment\<close> right after it returns
  those samples, oldest first, if \<open>signalled\<close> is set after the store, and waits if it
  is not. It is set exactly if it was set before the store or the updated count,
  \<open>ring_has + len\<close> modulo \<open>2 ^ 32\<close>, is at least \<open>MIN_NEW_SAMPLES\<close>; this is so
  whenever \<open>ring_has + len\<close> is below \<open>2 ^ 32\<close>.
\<close>

theorem store_overrun_newest_wins:
  assumes "valid_build N" and "sndbuf_inv N s" and "unat len \<le> length input"
    and "RING_SIZE N \<le> unat len"
  shows "\<exists>s'. sndbuf_store N input len s = Inr s' \<and>
           ring s' = take (RING_SIZE N) (drop (unat len - RING_SIZE N) input) \<and>
           length (ring s') = RING_SIZE N \<and>
           (\<forall>i < RING_SIZE N. ring s' ! i = input ! (unat len - RING_SIZE N + i)) \<and>
           ring_write s' = 0 \<and>
           (signalled s' \<noteq> 0 \<longrightarrow>
              (\<exists>s''. getNextFragment N s' = Returns (sint (ring_has s + len), s'') \<and>
                 data s'' = take (RING_SIZE N) (drop (unat len - RING_SIZE N) input))) \<and>
           (signalled s' = 0 \<longrightarrow> getNextFragment N s' = Waits) \<and>
           (signalled s' \<noteq> 0 \<longleftrightarrow>
              signalled s \<noteq> 0 \<or> of_nat (MIN_NEW_SAMPLES N) \<le> ring_has s + len) \<and>
           (signalled s \<noteq> 0 \<or> unat (ring_has s) + unat len < 2 ^ 32 \<longrightarrow> signalled s' \<noteq> 0)"
proof -
  define r' where "r' = take (RING_SIZE N) (drop (unat len - RING_SIZE N) input)"
  define s' where "s' = store_account N len (s\<lparr>ring_write := 0, ring := r'\<rparr>)"
  have st: "sndbuf_store N input len s = Inr s'"
    using store_overrun [OF assms] by (simp add: s'_def r'_def)
  have len: "length r' = RING_SIZE N"
    using assms(3,4) by (simp add: r'_def)
  have nth: "r' ! i = input ! (unat len - RING_SIZE N + i)" if "i < RING_SIZE N" for i
    using that assms(3,4) by (simp add: r'_def)
  have inv: "sndbuf_inv N s'"
    using assms(1,2) len by (simp add: s'_def sndbuf_inv_def valid_build_def)
  have lin: "linearized s' = r'"
    by (simp add: s'_def linearized_upd)
  have drain: "\<exists>s''. getNextFragment N s' = Returns (sint (ring_has s + len), s'') \<and>
      data s'' = r'"
    if "signalled s' \<noteq> 0"
    using getNextFragment_returns [OF assms(1) inv that] lin by (simp add: s'_def)
  have iff: "signalled s' \<noteq> 0 \<longleftrightarrow>
      signalled s \<noteq> 0 \<or> of_nat (MIN_NEW_SAMPLES N) \<le> ring_has s + len"
    by (auto simp add: s'_def store_account_signalled)
  have sig: "signalled s' \<noteq> 0" if "signalled s \<noteq> 0 \<or> unat (ring_has s) + unat len < 2 ^ 32"
    using that threshold_reached [OF assms(1,4), of "ring_has s"] iff by blast
  have "ring s' = r'" "ring_write s' = 0"
    by (simp_all add: s'_def)
  then have "sndbuf_store N input len s = Inr s' \<and> ring s' = r' \<and> length (ring s') = RING_SIZE N \<and>
      (\<forall>i < RING_SIZE N. ring s' ! i = input ! (unat len - RING_SIZE N + i)) \<and>
      ring_write s' = 0 \<and>
      (signalled s' \<noteq> 0 \<longrightarrow>
         (\<exists>s''. getNextFragment N s' = Returns (sint (ring_has s + len), s'') \<and>
            data s'' = r')) \<and>
      (signalled s' = 0 \<longrightarrow> getNextFragment N s' = Waits) \<and>
      (signalled s' \<noteq> 0 \<longleftrightarrow>
         signalled s \<noteq> 0 \<or> of_nat (MIN_NEW_SAMPLES N) \<le> ring_has s + len) \<and>
      (signalled s \<noteq> 0 \<or> unat (ring_has s) + unat len < 2 ^ 32 \<longrightarrow> signalled s' \<noteq> 0)"
    using st len nth drain iff sig getNextFragment_Waits [of s' N] by simp
  then show ?thesis
    unfolding r'_def by (rule exI)
qed

theorem store_overrun_newest_wins_witness:
  "valid_build 2 \<and> sndbuf_inv 2 (sndbuf_start 2 [9, 9, 9, 9 :: int]) \<and>
   (\<exists>s'. sndbuf_store 2 [1, 2, 3, 4, 5, 6] 6 (sndbuf_start 2 [9, 9, 9, 9 :: int]) = Inr s' \<and>
      ring s' = [3, 4, 5, 6] \<and> ring_write s' = 0 \<and>
      (\<exists>s''. getNextFragment 2 s' = Returns (6, s'') \<and> data s'' = [3, 4, 5, 6]))"
proof -
  let ?s = "sndbuf_start 2 [9, 9, 9, 9 :: int]"
  have v: "valid_build 2" and i: "sndbuf_inv 2 ?s"
    and l: "unat (6 :: 32 word) \<le> length [1, 2, 3, 4, 5, 6 :: int]"
    and o: "RING_SIZE 2 \<le> unat (6 :: 32 word)"
    by (simp_all add: valid_build_def sndbuf_inv_def RING_SIZE_def sndbuf_start_def)
  have r: "ring_has ?s = 0" "unat (0 :: 32 word) + unat (6 :: 32 word) < 2 ^ 32"
      "RING_SIZE 2 = 4"
    by (simp_all add: sndbuf_start_def RING_SIZE_def)
  show ?thesis
    using store_overrun_newest_wins [OF v i l o] v i r by auto
qed

subsection \<open>C2: a batch below the capacity\<close>

text \<open>
  C2. A store of \<open>len < RING_SIZE\<close> samples with the cursor at \<open>w\<close> puts \<open>input[j]\<close>
  into slot \<open>(w + j) mod RING_SIZE\<close> for every \<open>j < len\<close>, leaves every other slot as
  it was, and moves the cursor to \<open>(w + len) mod RING_SIZE\<close>: to 0 when the batch
  ends at the end of the storage, to the length \<open>len - (RING_SIZE - w)\<close> of the tail
  when it goes past it. The first sample of the batch is in slot \<open>w\<close>, the last one in
  the slot before the new cursor.
\<close>

theorem store_within_capacity:
  assumes "valid_build N" and "sndbuf_inv N s" and "unat len \<le> length input"
    and "unat len < RING_SIZE N"
  shows "\<exists>s'. sndbuf_store N input len s = Inr s' \<and>
     length (ring s') = RING_SIZE N \<and>
     (\<forall>j < unat len.
        ring s' ! ((unat (ring_write s) + j) mod RING_SIZE N) = input ! j) \<and>
     (\<forall>i < RING_SIZE N.
        (\<forall>j < unat len. i \<noteq> (unat (ring_write s) + j) mod RING_SIZE N) \<longrightarrow>
        ring s' ! i = ring s ! i) \<and>
     unat (ring_write s') = (unat (ring_write s) + unat len) mod RING_SIZE N \<and>
     (unat (ring_write s) + unat len = RING_SIZE N \<longrightarrow> ring_write s' = 0) \<and>
     (RING_SIZE N < unat (ring_write s) + unat len \<longrightarrow>
        unat (ring_write s') = unat len - (RING_SIZE N - unat (ring_write s))) \<and>
     (0 < unat len \<longrightarrow>
        ring s' ! unat (ring_write s) = input ! 0 \<and>
        ring s' ! ((unat (ring_write s') + RING_SIZE N - 1) mod RING_SIZE N)
          = input ! (unat len - 1))"
proof -
  define C w L where "C = RING_SIZE N" and "w = unat (ring_write s)" and "L = unat len"
  have w: "w < C" "0 < C"
    using assms by (simp_all add: sndbuf_inv_def C_def w_def)
  have L: "L < C"
    using assms(4) by (simp add: L_def C_def)
  obtain s' where st: "sndbuf_store N input len s = Inr s'"
    and len: "length (ring s') = C"
    and cur: "unat (ring_write s') = (w + L) mod C"
    and nth: "\<And>i. i < C \<Longrightarrow> ring s' ! i =
        (if (i + C - w) mod C < L then input ! ((i + C - w) mod C) else ring s ! i)"
    using store_nth [OF assms] unfolding C_def w_def L_def by blast
  have written: "ring s' ! ((w + j) mod C) = input ! j" if "j < L" for j
  proof -
    have "j < C"
      using that L by simp
    then have "((w + j) mod C + C - w) mod C = j"
      using w by (simp only: ring_offset_of_slot)
    moreover have "(w + j) mod C < C"
      using w by simp
    ultimately show ?thesis
      using that by (simp add: nth)
  qed
  have frame: "ring s' ! i = ring s ! i"
    if "i < C" and "\<forall>j < L. i \<noteq> (w + j) mod C" for i
  proof -
    have "(w + (i + C - w) mod C) mod C = i"
      using w that(1) by (simp only: ring_slot_of_offset)
    then have "\<not> (i + C - w) mod C < L"
      using that(2) by metis
    then show ?thesis
      using that(1) by (simp add: nth)
  qed
  have zero: "ring_write s' = 0" if "w + L = C"
    using cur that by (simp add: unat_eq_0)
  have tail: "unat (ring_write s') = L - (C - w)" if "C < w + L"
  proof -
    have "(w + L) mod C = w + L - C"
      using that w L by (simp add: mod_once)
    then show ?thesis
      using cur that w by simp
  qed
  have ends: "ring s' ! w = input ! 0 \<and>
      ring s' ! ((unat (ring_write s') + C - 1) mod C) = input ! (L - 1)" if "0 < L"
  proof -
    have "ring s' ! ((w + 0) mod C) = input ! 0"
      using that by (rule written)
    moreover have "ring s' ! ((w + (L - 1)) mod C) = input ! (L - 1)"
      using that by (intro written) simp
    moreover have "((w + L) mod C + C - 1) mod C = (w + (L - 1)) mod C"
      using that w(2) by (rule ring_last_slot)
    ultimately show ?thesis
      using w by (simp add: cur)
  qed
  have "\<exists>s'. sndbuf_store N input len s = Inr s' \<and>
     length (ring s') = C \<and>
     (\<forall>j < L. ring s' ! ((w + j) mod C) = input ! j) \<and>
     (\<forall>i < C. (\<forall>j < L. i \<noteq> (w + j) mod C) \<longrightarrow> ring s' ! i = ring s ! i) \<and>
     unat (ring_write s') = (w + L) mod C \<and>
     (w + L = C \<longrightarrow> ring_write s' = 0) \<and>
     (C < w + L \<longrightarrow> unat (ring_write s') = L - (C - w)) \<and>
     (0 < L \<longrightarrow>
        ring s' ! w = input ! 0 \<and>
        ring s' ! ((unat (ring_write s') + C - 1) mod C) = input ! (L - 1))"
    using st len written frame cur zero tail ends by blast
  then show ?thesis
    unfolding C_def w_def L_def .
qed

theorem store_within_capacity_witness:
  "valid_build 2 \<and>
   sndbuf_inv 2 \<lparr>ring = [10, 20, 30, 40 :: int], ring_write = 3, signalled = 0,
       ring_has = 0, data = [0, 0, 0, 0], cond_signals = 1\<rparr> \<and>
   (\<exists>s'. sndbuf_store 2 [1, 2, 3] 3 \<lparr>ring = [10, 20, 30, 40 :: int], ring_write = 3,
       signalled = 0, ring_has = 0, data = [0, 0, 0, 0], cond_signals = 1\<rparr> = Inr s' \<and>
     unat (ring_write s') = 2 \<and> ring s' ! 3 = 1 \<and> ring s' ! 1 = 3)"
proof -
  let ?s = "\<lparr>ring = [10, 20, 30, 40 :: int], ring_write = 3, signalled = 0,
       ring_has = 0, data = [0, 0, 0, 0], cond_signals = 1\<rparr>"
  have v: "valid_build 2" and i: "sndbuf_inv 2 ?s"
    and l: "unat (3 :: 32 word) \<le> length [1, 2, 3 :: int]"
    and c: "unat (3 :: 32 word) < RING_SIZE 2"
    by (simp_all add: valid_build_def sndbuf_inv_def RING_SIZE_def)
  have r: "RING_SIZE 2 = 4"
    by (simp add: RING_SIZE_def)
  show ?thesis
    using store_within_capacity [OF v i l c] v i by (auto simp add: r)
qed

subsection \<open>C3: the fragment is the ring from the write cursor on\<close>

text \<open>
  C3. When \<open>getNextFragment\<close> returns, the fragment it has put into \<open>data\<close> is
  \<open>ring[ring_write], \<dots>, ring[RING_SIZE - 1], ring[0], \<dots>, ring[ring_write - 1]\<close>:
  its first \<open>RING_SIZE - ring_write\<close> samples are those from the cursor to the end
  of the storage, the remaining \<open>ring_write\<close> samples those from index 0, and its
  length is \<open>RING_SIZE\<close>. The call returns whenever \<open>signalled\<close> is set.
\<close>

theorem getNextFragment_fragment:
  assumes "valid_build N" and "sndbuf_inv N s" and "signalled s \<noteq> 0"
  shows "\<exists>s'. getNextFragment N s = Returns (sint (ring_has s), s') \<and>
           data s' = drop (unat (ring_write s)) (ring s) @ take (unat (ring_write s)) (ring s) \<and>
           length (data s') = RING_SIZE N \<and>
           take (RING_SIZE N - unat (ring_write s)) (data s') = drop (unat (ring_write s)) (ring s) \<and>
           drop (RING_SIZE N - unat (ring_write s)) (data s') = take (unat (ring_write s)) (ring s) \<and>
           (\<forall>i < RING_SIZE N.
              data s' ! i = ring s ! ((unat (ring_write s) + i) mod RING_SIZE N))"
proof -
  define w C where "w = unat (ring_write s)" and "C = RING_SIZE N"
  define F where "F = drop w (ring s) @ take w (ring s)"
  have w: "w < C" "length (ring s) = C"
    using assms(2) by (simp_all add: sndbuf_inv_def w_def C_def)
  have ret: "getNextFragment N s
      = Returns (sint (ring_has s), s\<lparr>signalled := 0, data := F, ring_has := 0\<rparr>)"
    using getNextFragment_returns [OF assms] by (simp add: linearized_def F_def w_def)
  have len: "length F = C"
    using w by (simp add: F_def)
  have tk: "take (C - w) F = drop w (ring s)" and dr: "drop (C - w) F = take w (ring s)"
    using w by (simp_all add: F_def)
  have nth: "F ! i = ring s ! ((w + i) mod C)" if "i < C" for i
  proof (cases "i < C - w")
    case True
    then show ?thesis
      using w by (simp add: F_def nth_append)
  next
    case False
    have ge: "C \<le> w + i" "w + i - C < C"
      using False that w by arith+
    then have "(w + i) mod C = w + i - C"
      by (simp add: le_mod_geq)
    moreover have "w + i - C = i - (C - w)" "i - (C - w) < w"
      using False that w by arith+
    ultimately show ?thesis
      using False w by (simp add: F_def nth_append)
  qed
  show ?thesis
    using len tk dr nth by (simp add: ret flip: w_def C_def F_def)
qed

theorem getNextFragment_fragment_witness:
  "valid_build 2 \<and>
   sndbuf_inv 2 \<lparr>ring = [10, 20, 30, 40 :: int], ring_write = 1, signalled = 1,
     ring_has = 5, data = [0, 0, 0, 0], cond_signals = 1\<rparr> \<and>
   (\<exists>s'. getNextFragment 2 \<lparr>ring = [10, 20, 30, 40 :: int], ring_write = 1, signalled = 1,
            ring_has = 5, data = [0, 0, 0, 0], cond_signals = 1\<rparr> = Returns (5, s') \<and>
         data s' = [20, 30, 40, 10])"
proof -
  let ?s = "\<lparr>ring = [10, 20, 30, 40 :: int], ring_write = 1, signalled = 1,
     ring_has = 5, data = [0, 0, 0, 0], cond_signals = 1\<rparr>"
  have v: "valid_build 2" and i: "sndbuf_inv 2 ?s" and g: "signalled ?s \<noteq> 0"
    by (simp_all add: valid_build_def sndbuf_inv_def RING_SIZE_def)
  show ?thesis
    using getNextFragment_fragment [OF v i g] v i by auto
qed

subsection \<open>C4: the fragment after a sequence of stores\<close>

text \<open>
  C4. After any sequence of stores on the variables as they are at the start, the
  fragment that \<open>getNextFragment\<close> returns is the last \<open>RING_SIZE\<close> samples of the
  stream made of \<open>RING_SIZE\<close> zeros followed by the samples of the batches in call
  order. With at most \<open>RING_SIZE\<close> samples stored the fragment is zeros followed by
  the stored samples, each once and in order; and the fragment ends with the samples
  of the last two batches, in call order, cut to their last \<open>RING_SIZE\<close>. The call
  returns whenever \<open>signalled\<close> is set, which is so once the stores have brought at
  least \<open>MIN_NEW_SAMPLES\<close> samples (and fewer than \<open>2 ^ 32\<close>).
\<close>

theorem stores_then_fragment:
  assumes "valid_build N" and "length d = RING_SIZE N" and "batches_ok bs"
  shows "\<exists>s1. store_all N bs (sndbuf_start N d) = Inr s1 \<and>
     (\<forall>c s2. getNextFragment N s1 = Returns (c, s2) \<longrightarrow>
        data s2 = last_n (RING_SIZE N) (replicate (RING_SIZE N) 0 @ samples bs)) \<and>
     (signalled s1 \<noteq> 0 \<longrightarrow> (\<exists>c s2. getNextFragment N s1 = Returns (c, s2))) \<and>
     (MIN_NEW_SAMPLES N \<le> length (samples bs) \<and> length (samples bs) < 2 ^ 32 \<longrightarrow>
        signalled s1 \<noteq> 0) \<and>
     length (last_n (RING_SIZE N) (replicate (RING_SIZE N) 0 @ samples bs)) = RING_SIZE N \<and>
     (length (samples bs) \<le> RING_SIZE N \<longrightarrow>
        last_n (RING_SIZE N) (replicate (RING_SIZE N) 0 @ samples bs)
          = replicate (RING_SIZE N - length (samples bs)) 0 @ samples bs) \<and>
     (\<forall>bs0 b1 b2. bs = bs0 @ [b1, b2] \<longrightarrow>
        last_n (length (last_n (RING_SIZE N) (samples [b1, b2])))
            (last_n (RING_SIZE N) (replicate (RING_SIZE N) 0 @ samples bs))
          = last_n (RING_SIZE N) (samples [b1, b2]))"
proof -
  define C S where "C = RING_SIZE N" and "S = samples bs"
  define Z :: "'a list" where "Z = replicate C 0"
  define F where "F = last_n C (Z @ S)"
  note inv = sndbuf_start_inv [OF assms(2,1)]
  have F: "F = drop (length S) (Z @ S)"
    unfolding F_def by (rule last_n_full) (simp add: Z_def)
  obtain s1 where s1: "store_all N bs (sndbuf_start N d) = Inr s1" "sndbuf_inv N s1"
    and lin: "linearized s1 = F"
    using store_all_effect [OF assms(1) inv assms(3)]
    by (auto simp add: linearized_start F Z_def S_def C_def)
  have ret: "getNextFragment N s1 =
      Returns (sint (ring_has s1), s1\<lparr>signalled := 0, data := F, ring_has := 0\<rparr>)"
    if "signalled s1 \<noteq> 0"
    using getNextFragment_returns [OF assms(1) s1(2) that] by (simp add: lin)
  have a: "data s2 = F" if "getNextFragment N s1 = Returns (c, s2)" for c s2
  proof -
    have "signalled s1 \<noteq> 0"
      using that by (auto simp add: getNextFragment_Waits)
    then show ?thesis
      using ret that by simp
  qed
  have b: "\<exists>c s2. getNextFragment N s1 = Returns (c, s2)" if "signalled s1 \<noteq> 0"
    using ret [OF that] by blast
  have c: "signalled s1 \<noteq> 0" if "MIN_NEW_SAMPLES N \<le> length S" "length S < 2 ^ 32"
    using store_all_signalled [OF assms(1) inv assms(3) _ s1(1)] that by (simp add: S_def)
  have d: "length F = C"
    by (simp add: F Z_def)
  have e: "F = replicate (C - length S) 0 @ S" if "length S \<le> C"
    using that by (simp add: F Z_def)
  have f: "last_n (length (last_n C (samples [b1, b2]))) F = last_n C (samples [b1, b2])"
    if "bs = bs0 @ [b1, b2]" for bs0 b1 b2
  proof -
    define B m where "B = samples [b1, b2]" and "m = length (last_n C B)"
    have m: "m \<le> C" "m \<le> length B" "m = min C (length B)"
      by (simp_all add: m_def length_last_n)
    have "Z @ S = (Z @ samples bs0) @ B"
      by (simp add: S_def that samples_append B_def)
    then have "last_n m F = last_n m ((Z @ samples bs0) @ B)"
      unfolding F_def using m(1) by (simp only: last_n_last_n)
    also have "\<dots> = last_n m B"
      using m(2) by (rule last_n_append)
    also have "\<dots> = last_n C B"
      unfolding m(3) by (simp add: last_n_def min_def)
    finally show ?thesis
      by (simp only: m_def B_def)
  qed
  have "\<exists>s1. store_all N bs (sndbuf_start N d) = Inr s1 \<and>
     (\<forall>c s2. getNextFragment N s1 = Returns (c, s2) \<longrightarrow> data s2 = F) \<and>
     (signalled s1 \<noteq> 0 \<longrightarrow> (\<exists>c s2. getNextFragment N s1 = Returns (c, s2))) \<and>
     (MIN_NEW_SAMPLES N \<le> length S \<and> length S < 2 ^ 32 \<longrightarrow> signalled s1 \<noteq> 0) \<and>
     length F = C \<and>
     (length S \<le> C \<longrightarrow> F = replicate (C - length S) 0 @ S) \<and>
     (\<forall>bs0 b1 b2. bs = bs0 @ [b1, b2] \<longrightarrow>
        last_n (length (last_n C (samples [b1, b2]))) F = last_n C (samples [b1, b2]))"
    using s1(1) a b c d e f by blast
  then show ?thesis
    unfolding F_def Z_def S_def C_def .
qed

theorem stores_then_fragment_witness:
  "valid_build 2 \<and> length [0, 0, 0, 0 :: int] = RING_SIZE 2 \<and>
   batches_ok [([1, 2 :: int], 2), ([3, 4, 5], 3)] \<and>
   (\<exists>s1. store_all 2 [([1, 2], 2), ([3, 4, 5], 3)] (sndbuf_start 2 [0, 0, 0, 0 :: int])
            = Inr s1 \<and>
      (\<exists>c s2. getNextFragment 2 s1 = Returns (c, s2) \<and> data s2 = [2, 3, 4, 5]))"
proof -
  let ?bs = "[([1, 2 :: int], 2 :: 32 word), ([3, 4, 5], 3)]"
  have l: "length [0, 0, 0, 0 :: int] = RING_SIZE 2"
    by (simp add: RING_SIZE_def)
  obtain s1 where s1: "store_all 2 ?bs (sndbuf_start 2 [0, 0, 0, 0]) = Inr s1"
    and frag: "\<And>c s2. getNextFragment 2 s1 = Returns (c, s2) \<Longrightarrow>
        data s2 = last_n (RING_SIZE 2) (replicate (RING_SIZE 2) 0 @ samples ?bs)"
    and ret: "MIN_NEW_SAMPLES 2 \<le> length (samples ?bs) \<and> length (samples ?bs) < 2 ^ 32 \<longrightarrow>
        signalled s1 \<noteq> 0"
       "signalled s1 \<noteq> 0 \<longrightarrow> (\<exists>c s2. getNextFragment 2 s1 = Returns (c, s2))"
    using stores_then_fragment [OF ex_valid(1) l ex_valid(4)] by blast
  have "MIN_NEW_SAMPLES 2 \<le> length (samples ?bs) \<and> length (samples ?bs) < 2 ^ 32"
    by (simp add: ex_samples MIN_NEW_SAMPLES_eq)
  then obtain c s2 where r: "getNextFragment 2 s1 = Returns (c, s2)"
    using ret by blast
  have "last_n (RING_SIZE 2) (replicate (RING_SIZE 2) 0 @ samples ?bs) = [2, 3, 4, 5]"
    by (simp add: ex_samples ex_valid(2) last_n_def)
  then have "data s2 = [2, 3, 4, 5]"
    using frag [OF r] by simp
  then show ?thesis
    using s1 r l ex_valid(1,4) by blast
qed

subsection \<open>C5: one signal per crossing of the threshold\<close>

text \<open>
  C5. A store calls \<open>SDL_CondSignal\<close> exactly when the count \<open>ring_has\<close> it has
  just updated is at least \<open>MIN_NEW_SAMPLES\<close>, which is half of \<open>RING_SIZE\<close>, and
  \<open>signalled\<close> is 0, and it sets \<open>signalled\<close> to 1 in that case; with \<open>signalled\<close>
  set it sends no signal. So a run of stores sends at most one signal, none if
  \<open>signalled\<close> was set before it, and exactly one if \<open>signalled\<close> was 0 before it
  and the count is at or above the threshold after each of its stores.
  \<open>getNextFragment\<close> does not return while \<open>signalled\<close> is 0.
\<close>

theorem wake_edge_triggered:
  "(sndbuf_store N input len s = Inr s' \<longrightarrow>
      cond_signals s' =
        (if of_nat (MIN_NEW_SAMPLES N) \<le> ring_has s + len \<and> signalled s = 0
         then cond_signals s + 1 else cond_signals s) \<and>
      signalled s' =
        (if of_nat (MIN_NEW_SAMPLES N) \<le> ring_has s + len \<and> signalled s = 0
         then 1 else signalled s) \<and>
      ring_has s' = ring_has s + len) \<and>
   MIN_NEW_SAMPLES N = RING_SIZE N div 2 \<and>
   (store_all N bs t = Inr t' \<longrightarrow>
      cond_signals t' \<le> cond_signals t + 1 \<and>
      (signalled t \<noteq> 0 \<longrightarrow> cond_signals t' = cond_signals t \<and> signalled t' = signalled t) \<and>
      (signalled t = 0 \<and> bs \<noteq> [] \<and> pending_stays N (ring_has t) (map snd bs) \<longrightarrow>
         cond_signals t' = cond_signals t + 1 \<and> signalled t' = 1)) \<and>
   (signalled u = 0 \<longrightarrow> getNextFragment N u = Waits)"
proof -
  have one: "cond_signals s' =
        (if of_nat (MIN_NEW_SAMPLES N) \<le> ring_has s + len \<and> signalled s = 0
         then cond_signals s + 1 else cond_signals s) \<and>
      signalled s' =
        (if of_nat (MIN_NEW_SAMPLES N) \<le> ring_has s + len \<and> signalled s = 0
         then 1 else signalled s) \<and>
      ring_has s' = ring_has s + len"
    if "sndbuf_store N input len s = Inr s'"
    using store_signal(1-3) [OF that] by simp
  have many: "cond_signals t' \<le> cond_signals t + 1 \<and>
      (signalled t \<noteq> 0 \<longrightarrow> cond_signals t' = cond_signals t \<and> signalled t' = signalled t) \<and>
      (signalled t = 0 \<and> bs \<noteq> [] \<and> pending_stays N (ring_has t) (map snd bs) \<longrightarrow>
         cond_signals t' = cond_signals t + 1 \<and> signalled t' = 1)"
    if r: "store_all N bs t = Inr t'"
  proof -
    have "signalled t' \<noteq> 0"
      if "bs \<noteq> []" "pending_stays N (ring_has t) (map snd bs)"
      using store_all_stays [OF r that] .
    then show ?thesis
      using store_all_signals [OF r] by auto
  qed
  show ?thesis
    using one many by (simp add: MIN_NEW_SAMPLES_def getNextFragment_Waits)
qed

theorem wake_edge_triggered_witness:
  "(\<exists>s'. sndbuf_store 2 [1, 2] 2 (sndbuf_start 2 [0, 0, 0, 0 :: int]) = Inr s' \<and>
      cond_signals s' = cond_signals (sndbuf_start 2 [0, 0, 0, 0 :: int]) + 1 \<and>
      signalled s' = 1) \<and>
   (\<exists>t'. store_all 2 [([1, 2], 2), ([3], 1)] (sndbuf_start 2 [0, 0, 0, 0 :: int]) = Inr t' \<and>
      pending_stays 2 (ring_has (sndbuf_start 2 [0, 0, 0, 0 :: int])) [2, 1] \<and>
      cond_signals t' = cond_signals (sndbuf_start 2 [0, 0, 0, 0 :: int]) + 1 \<and>
      signalled t' = 1) \<and>
   getNextFragment 2 (sndbuf_start 2 [0, 0, 0, 0 :: int]) = Waits"
proof -
  let ?s = "sndbuf_start 2 [0, 0, 0, 0 :: int]"
  let ?s1 = "\<lparr>ring = [1, 2, 0, 0 :: int], ring_write = 2, signalled = 1, ring_has = 2,
      data = [0, 0, 0, 0], cond_signals = 1\<rparr>"
  let ?t1 = "\<lparr>ring = [1, 2, 3, 0 :: int], ring_write = 3, signalled = 1, ring_has = 3,
      data = [0, 0, 0, 0], cond_signals = 1\<rparr>"
  have e0: "?s = \<lparr>ring = [0, 0, 0, 0], ring_write = 0, signalled = 0, ring_has = 0,
      data = [0, 0, 0, 0], cond_signals = 0\<rparr>"
    by (simp add: sndbuf_start_def RING_SIZE_def eval_nat_numeral)
  have e1: "sndbuf_store 2 [1, 2] 2 ?s = Inr ?s1"
    unfolding e0
    by (simp add: sndbuf_store_def store_finish_def memcpy_def store_account_def Let_def
        RING_SIZE_def MIN_NEW_SAMPLES_def)
  have e2: "sndbuf_store 2 [3] 1 ?s1 = Inr ?t1"
    by (simp add: sndbuf_store_def store_finish_def memcpy_def store_account_def Let_def
        RING_SIZE_def MIN_NEW_SAMPLES_def word_le_nat_alt word_less_nat_alt)
  have e3: "store_all 2 [([1, 2], 2), ([3], 1)] ?s = Inr ?t1"
    by (simp only: store_all.simps e1 e2 sum.case)
  have p: "pending_stays 2 (ring_has ?s) [2, 1]" "signalled ?s = 0" "cond_signals ?s = 0"
      "ring_has ?s = 0" "of_nat (MIN_NEW_SAMPLES 2) \<le> ring_has ?s + (2 :: 32 word)"
    by (simp_all add: sndbuf_start_def MIN_NEW_SAMPLES_def RING_SIZE_def)
  note w = wake_edge_triggered [where N = 2 and input = "[1, 2]" and len = 2 and s = ?s
        and s' = ?s1 and bs = "[([1, 2], 2), ([3], 1)]" and t = ?s and t' = ?t1 and u = ?s]
  have m: "map snd [([1, 2 :: int], 2 :: 32 word), ([3], 1)] = [2, 1]"
      "[([1, 2 :: int], 2 :: 32 word), ([3], 1)] \<noteq> []"
    by simp_all
  have a: "cond_signals ?s1 = cond_signals ?s + 1 \<and> signalled ?s1 = 1"
    using w [THEN conjunct1, rule_format, OF e1] p(2,5) by (simp only: if_True simp_thms)
  have b: "cond_signals ?t1 = cond_signals ?s + 1 \<and> signalled ?t1 = 1"
    using w [THEN conjunct2, THEN conjunct2, THEN conjunct1, rule_format, OF e3]
      p(1,2) m by (simp only: simp_thms)
  have c: "getNextFragment 2 ?s = Waits"
    using w p(2) by blast
  show ?thesis
    using e1 e3 p(1) a b c by blast
qed

subsection \<open>C6: the returned count\<close>

text \<open>
  As written, with the returned count equal to the sum modulo \<open>2 ^ 32\<close>, C6 fails:
  \<open>getNextFragment\<close> is declared \<open>int\<close>, and after one store of \<open>2 ^ 31\<close> samples on
  the variables as they are at the start it returns \<open>- 2 ^ 31\<close>, where the sum of the
  lengths modulo \<open>2 ^ 32\<close> is \<open>2 ^ 31\<close>.
\<close>

theorem count_accounting_counterexample:
  "batches_ok [(replicate 2147483648 (0 :: int), 2147483648)] \<and>
   store_all 2 [(replicate 2147483648 0, 2147483648)] (sndbuf_start 2 [0, 0, 0, 0 :: int]) =
     Inr \<lparr>ring = [0, 0, 0, 0], ring_write = 0, signalled = 1, ring_has = 2147483648,
          data = [0, 0, 0, 0], cond_signals = 1\<rparr> \<and>
   getNextFragment 2
     \<lparr>ring = [0, 0, 0, 0 :: int], ring_write = 0, signalled = 1, ring_has = 2147483648,
      data = [0, 0, 0, 0], cond_signals = 1\<rparr> =
     Returns (- 2147483648,
       \<lparr>ring = [0, 0, 0, 0], ring_write = 0, signalled = 0, ring_has = 0,
        data = [0, 0, 0, 0], cond_signals = 1\<rparr>) \<and>
   int (sum_list (map (unat \<circ> snd) [(replicate 2147483648 (0 :: int), 2147483648 :: 32 word)])
     mod 2 ^ 32) = 2147483648"
proof -
  let ?s1 = "\<lparr>ring = [0, 0, 0, 0 :: int], ring_write = 0, signalled = 1,
      ring_has = 2147483648, data = [0, 0, 0, 0], cond_signals = 1\<rparr>"
  have l: "unat (2147483648 :: 32 word) \<le> length (replicate 2147483648 (0 :: int))"
    by simp
  have o: "RING_SIZE 2 \<le> unat (2147483648 :: 32 word)"
    by (simp add: RING_SIZE_def)
  have four: "replicate 4 (0 :: int) = [0, 0, 0, 0]"
    by (simp add: eval_nat_numeral)
  have r: "take (RING_SIZE 2)
      (drop (unat (2147483648 :: 32 word) - RING_SIZE 2) (replicate 2147483648 (0 :: int)))
        = [0, 0, 0, 0]"
    by (simp add: RING_SIZE_def four)
  have "sndbuf_store 2 (replicate 2147483648 0) 2147483648 (sndbuf_start 2 [0, 0, 0, 0 :: int])
      = Inr ?s1"
    unfolding store_overrun [OF ex_valid(1,3) l o] r
    by (simp add: ex_start store_account_def Let_def MIN_NEW_SAMPLES_def RING_SIZE_def
        word_le_nat_alt)
  then have a: "store_all 2 [(replicate 2147483648 0, 2147483648)]
      (sndbuf_start 2 [0, 0, 0, 0 :: int]) = Inr ?s1"
    by (simp only: store_all.simps sum.case)
  have b: "getNextFragment 2 ?s1 =
     Returns (- 2147483648,
       \<lparr>ring = [0, 0, 0, 0], ring_write = 0, signalled = 0, ring_has = 0,
        data = [0, 0, 0, 0], cond_signals = 1\<rparr>)"
    by (simp add: getNextFragment_def Let_def memcpy_def RING_SIZE_def)
  have c: "batches_ok [(replicate 2147483648 (0 :: int), 2147483648)]"
    by (simp add: batches_ok_def)
  have d: "int (sum_list (map (unat \<circ> snd)
      [(replicate 2147483648 (0 :: int), 2147483648 :: 32 word)]) mod 2 ^ 32) = 2147483648"
    by simp
  show ?thesis
    using a b c d by blast
qed

text \<open>
  C6, amended. The value \<open>getNextFragment\<close> returns is the sum of the \<open>len\<close>
  arguments of the stores since the previous call of \<open>getNextFragment\<close> returned, or
  since the start, added as \<open>unsigned int\<close>, that is modulo \<open>2 ^ 32\<close>, and returned
  as an \<open>int\<close>: it is the sum modulo \<open>2 ^ 32\<close> when that is below \<open>2 ^ 31\<close>, and
  \<open>2 ^ 32\<close> less than it otherwise, so always congruent to the sum modulo
  \<open>2 ^ 32\<close>. The count can be greater than \<open>RING_SIZE\<close>.
\<close>

theorem count_accounting:
  assumes "valid_build N" and "sndbuf_inv N s0"
    and "s0 = sndbuf_start N d \<or> (\<exists>s c. getNextFragment N s = Returns (c, s0))"
    and "batches_ok bs"
  shows "(\<exists>s1. store_all N bs s0 = Inr s1 \<and>
            ring_has s1 = sum_list (map snd bs) \<and>
            unat (ring_has s1) = sum_list (map (unat \<circ> snd) bs) mod 2 ^ 32 \<and>
            (\<forall>c s2. getNextFragment N s1 = Returns (c, s2) \<longrightarrow>
               c = (if sum_list (map (unat \<circ> snd) bs) mod 2 ^ 32 < 2 ^ 31
                    then int (sum_list (map (unat \<circ> snd) bs) mod 2 ^ 32)
                    else int (sum_list (map (unat \<circ> snd) bs) mod 2 ^ 32) - 2 ^ 32) \<and>
               c mod 2 ^ 32 = int (sum_list (map (unat \<circ> snd) bs) mod 2 ^ 32) \<and>
               ring_has s2 = 0) \<and>
            (signalled s1 \<noteq> 0 \<longrightarrow> (\<exists>c s2. getNextFragment N s1 = Returns (c, s2)))) \<and>
         (length d = RING_SIZE N \<longrightarrow>
            (\<exists>bs' s1 c s2. batches_ok bs' \<and> store_all N bs' (sndbuf_start N d) = Inr s1 \<and>
               getNextFragment N s1 = Returns (c, s2) \<and> int (RING_SIZE N) < c))"
proof -
  define m where "m = sum_list (map (unat \<circ> snd) bs) mod 2 ^ 32"
  have zero: "ring_has s0 = 0"
    using assms(3) getNextFragment_changes(4) by fastforce
  obtain s1 where s1: "store_all N bs s0 = Inr s1" "sndbuf_inv N s1"
    and has: "ring_has s1 = ring_has s0 + sum_list (map snd bs)"
    using store_all_effect [OF assms(1,2,4)] by blast
  have sum: "ring_has s1 = sum_list (map snd bs)"
    using has zero by simp
  have "unat (ring_has s1) = sum_list (map unat (map snd bs)) mod 2 ^ 32"
    unfolding sum by (rule unat_sum_list)
  then have nat: "unat (ring_has s1) = m"
    by (simp add: m_def)
  have val: "sint (ring_has s1) = (if m < 2 ^ 31 then int m else int m - 2 ^ 32)"
    by (simp only: sint_unsigned_int nat)
  have "m < 2 ^ 32"
    by (simp add: m_def)
  then have "int m < 2 ^ 32"
    by (simp only: of_nat_less_iff [symmetric, where ?'a = int]) simp
  then have "int m mod 2 ^ 32 = int m" "(int m - 2 ^ 32) mod 2 ^ 32 = int m"
    by (simp_all only: minus_mod_self2) simp_all
  then have cong: "sint (ring_has s1) mod 2 ^ 32 = int m"
    by (simp add: val)
  have ret: "c = (if m < 2 ^ 31 then int m else int m - 2 ^ 32) \<and> c mod 2 ^ 32 = int m \<and>
      ring_has s2 = 0"
    if "getNextFragment N s1 = Returns (c, s2)" for c s2
    using getNextFragment_changes(3,4) [OF that] val cong by simp
  have returns: "\<exists>c s2. getNextFragment N s1 = Returns (c, s2)" if "signalled s1 \<noteq> 0"
    using getNextFragment_returns [OF assms(1) s1(2) that] by simp
  have "(\<exists>s1. store_all N bs s0 = Inr s1 \<and>
            ring_has s1 = sum_list (map snd bs) \<and>
            unat (ring_has s1) = m \<and>
            (\<forall>c s2. getNextFragment N s1 = Returns (c, s2) \<longrightarrow>
               c = (if m < 2 ^ 31 then int m else int m - 2 ^ 32) \<and>
               c mod 2 ^ 32 = int m \<and> ring_has s2 = 0) \<and>
            (signalled s1 \<noteq> 0 \<longrightarrow> (\<exists>c s2. getNextFragment N s1 = Returns (c, s2)))) \<and>
         (length d = RING_SIZE N \<longrightarrow>
            (\<exists>bs' s1 c s2. batches_ok bs' \<and> store_all N bs' (sndbuf_start N d) = Inr s1 \<and>
               getNextFragment N s1 = Returns (c, s2) \<and> int (RING_SIZE N) < c))"
    using s1(1) sum nat ret returns count_can_exceed [OF assms(1)] by blast
  then show ?thesis
    unfolding m_def .
qed

theorem count_accounting_witness:
  "valid_build 2 \<and> sndbuf_inv 2 (sndbuf_start 2 [0, 0, 0, 0 :: int]) \<and>
   batches_ok [([1, 2 :: int], 2), ([3, 4, 5], 3)] \<and>
   (\<exists>s1. store_all 2 [([1, 2], 2), ([3, 4, 5], 3)] (sndbuf_start 2 [0, 0, 0, 0 :: int])
            = Inr s1 \<and>
      unat (ring_has s1) = 5 \<and>
      (\<exists>c s2. getNextFragment 2 s1 = Returns (c, s2) \<and> c = 5 \<and> int (RING_SIZE 2) < c))"
proof -
  let ?s = "sndbuf_start 2 [0, 0, 0, 0 :: int]"
  let ?bs = "[([1, 2 :: int], 2 :: 32 word), ([3, 4, 5], 3)]"
  have from_start: "?s = sndbuf_start 2 [0, 0, 0, 0] \<or>
      (\<exists>s c. getNextFragment 2 s = Returns (c, ?s))"
    by simp
  have five: "sum_list (map (unat \<circ> snd) ?bs) mod 2 ^ 32 = 5"
    by simp
  obtain s1 where s1: "store_all 2 ?bs ?s = Inr s1"
    and has: "unat (ring_has s1) = sum_list (map (unat \<circ> snd) ?bs) mod 2 ^ 32"
    and val: "\<And>c s2. getNextFragment 2 s1 = Returns (c, s2) \<Longrightarrow>
        c = (if sum_list (map (unat \<circ> snd) ?bs) mod 2 ^ 32 < 2 ^ 31
             then int (sum_list (map (unat \<circ> snd) ?bs) mod 2 ^ 32)
             else int (sum_list (map (unat \<circ> snd) ?bs) mod 2 ^ 32) - 2 ^ 32)"
    and ret: "signalled s1 \<noteq> 0 \<longrightarrow> (\<exists>c s2. getNextFragment 2 s1 = Returns (c, s2))"
    using count_accounting [OF ex_valid(1,3) from_start ex_valid(4)] by blast
  have "signalled s1 \<noteq> 0"
    using s1 unfolding ex_store_all by auto
  then obtain c s2 where r: "getNextFragment 2 s1 = Returns (c, s2)"
    using ret by blast
  have "c = 5"
    using val [OF r] unfolding five by simp
  then have "c = 5 \<and> int (RING_SIZE 2) < c"
    by (simp add: ex_valid(2))
  then show ?thesis
    using s1 has r ex_valid(1,3,4) unfolding five by blast
qed

subsection \<open>C7: what a drain changes\<close>

text \<open>
  C7. A call of \<open>getNextFragment\<close> that returns leaves \<open>ring\<close> and \<open>ring_write\<close> as
  they were. It returns the value of \<open>ring_has\<close>, as an \<open>int\<close> with the same 32
  bits, and sets \<open>ring_has\<close> to 0 and \<open>signalled\<close> to 0; the only other change is the
  fragment in \<open>data\<close>, and no signal is sent.
\<close>

theorem getNextFragment_frame:
  assumes "getNextFragment N s = Returns (c, s')"
  shows "ring s' = ring s \<and> ring_write s' = ring_write s \<and>
         c = sint (ring_has s) \<and> word_of_int c = ring_has s \<and>
         ring_has s' = 0 \<and> signalled s' = 0 \<and>
         cond_signals s' = cond_signals s \<and>
         s' = s\<lparr>signalled := 0, data := data s', ring_has := 0\<rparr>"
  using assms
  by (auto simp add: getNextFragment_def Let_def split: if_splits sum.splits)

theorem getNextFragment_frame_witness:
  "getNextFragment 2 \<lparr>ring = [10, 20, 30, 40 :: int], ring_write = 3, signalled = 1,
       ring_has = 7, data = [0, 0, 0, 0], cond_signals = 1\<rparr>
     = Returns (7, \<lparr>ring = [10, 20, 30, 40], ring_write = 3, signalled = 0,
         ring_has = 0, data = [40, 10, 20, 30], cond_signals = 1\<rparr>) \<and>
   ring \<lparr>ring = [10, 20, 30, 40 :: int], ring_write = 3, signalled = 0,
         ring_has = 0, data = [40, 10, 20, 30], cond_signals = 1\<rparr> = [10, 20, 30, 40]"
proof -
  have g: "getNextFragment 2 \<lparr>ring = [10, 20, 30, 40 :: int], ring_write = 3, signalled = 1,
       ring_has = 7, data = [0, 0, 0, 0], cond_signals = 1\<rparr>
     = Returns (7, \<lparr>ring = [10, 20, 30, 40], ring_write = 3, signalled = 0,
         ring_has = 0, data = [40, 10, 20, 30], cond_signals = 1\<rparr>)"
    by (simp add: getNextFragment_def Let_def memcpy_def RING_SIZE_def)
  show ?thesis
    using getNextFragment_frame [OF g] g by simp
qed

subsection \<open>C8: signalled along the calls\<close>

text \<open>
  C8. In every state that a sequence of calls of \<open>sndbuf_store\<close> and
  \<open>getNextFragment\<close> reaches from the start (\<open>ring_has\<close>, \<open>ring_write\<close> and
  \<open>signalled\<close> all 0), \<open>signalled\<close> is 0 or 1, and it is 1 exactly when the count
  of samples stored since the last drain has reached the threshold, half of
  \<open>RING_SIZE\<close>, since that drain (\<open>spec_ready\<close>). While \<open>signalled\<close> is 0 the count
  \<open>ring_has\<close> is below the threshold. From such a state a store leaves \<open>signalled\<close>
  at 1 exactly if it was 1 or the new count is at least the threshold, and a
  \<open>getNextFragment\<close> that returns found it 1 and leaves it 0.
\<close>

theorem ready_state_machine:
  assumes "valid_build N" and "length d = RING_SIZE N" and "list_all call_ok cs"
    and "run N cs (sndbuf_start N d) = Returns s"
  shows "ring_has (sndbuf_start N d) = 0 \<and> ring_write (sndbuf_start N d) = 0 \<and>
     signalled (sndbuf_start N d) = 0 \<and>
     (signalled s = 0 \<or> signalled s = 1) \<and>
     (signalled s = 1) = snd (spec_ready N cs (0, False)) \<and>
     ring_has s = fst (spec_ready N cs (0, False)) \<and>
     (signalled s = 0 \<longrightarrow> unat (ring_has s) < Threshold N) \<and>
     Threshold N = MIN_NEW_SAMPLES N \<and>
     (\<forall>input len s'. sndbuf_store N input len s = Inr s' \<longrightarrow>
        (signalled s' = 0 \<or> signalled s' = 1) \<and>
        (signalled s' = 1) = (signalled s = 1 \<or> of_nat (Threshold N) \<le> ring_has s')) \<and>
     (\<forall>c s'. getNextFragment N s = Returns (c, s') \<longrightarrow> signalled s = 1 \<and> signalled s' = 0)"
proof -
  note inv = sndbuf_start_inv [OF assms(2,1)]
  have "spec_ready N cs (ring_has (sndbuf_start N d), signalled (sndbuf_start N d) = 1)
      = (ring_has s, signalled s = 1)"
    and bin: "signalled s = 0 \<or> signalled s = 1"
    and low: "signalled s = 0 \<longrightarrow> unat (ring_has s) < Threshold N"
    using run_invariant [OF assms(1) inv assms(3,4)] assms(1)
    by (simp_all add: Threshold_def RING_SIZE_def valid_build_def)
  then have spec: "spec_ready N cs (0, False) = (ring_has s, signalled s = 1)"
    by simp
  have st: "(signalled s' = 0 \<or> signalled s' = 1) \<and>
      (signalled s' = 1) = (signalled s = 1 \<or> of_nat (Threshold N) \<le> ring_has s')"
    if "sndbuf_store N input len s = Inr s'" for input len s'
    using store_signal(1,3) [OF that] bin by (auto simp add: Threshold_eq)
  have tk: "signalled s = 1 \<and> signalled s' = 0"
    if "getNextFragment N s = Returns (c, s')" for c s'
  proof -
    have "signalled s \<noteq> 0"
      using that by (auto simp add: getNextFragment_Waits)
    then show ?thesis
      using bin getNextFragment_changes(5) [OF that] by simp
  qed
  have init: "ring_has (sndbuf_start N d) = 0 \<and> ring_write (sndbuf_start N d) = 0 \<and>
      signalled (sndbuf_start N d) = 0"
    by simp
  have sp: "(signalled s = 1) = snd (spec_ready N cs (0, False)) \<and>
      ring_has s = fst (spec_ready N cs (0, False))"
    by (simp add: spec)
  show ?thesis
    using init bin sp low Threshold_eq [of N] st tk by blast
qed

theorem ready_state_machine_witness:
  "valid_build 2 \<and> length [0, 0, 0, 0 :: int] = RING_SIZE 2 \<and>
   list_all call_ok [Store [1, 2 :: int] 2, Take, Store [3, 4, 5] 3] \<and>
   (\<exists>s. run 2 [Store [1, 2] 2, Take, Store [3, 4, 5] 3] (sndbuf_start 2 [0, 0, 0, 0 :: int])
          = Returns s \<and>
      signalled s = 1 \<and>
      snd (spec_ready 2 [Store [1, 2 :: int] 2, Take, Store [3, 4, 5] 3] (0, False)))"
proof -
  let ?cs = "[Store [1, 2 :: int] 2, Take, Store [3, 4, 5] 3]"
  let ?s = "\<lparr>ring = [5, 2, 3, 4 :: int], ring_write = 1, signalled = 1, ring_has = 3,
          data = [0, 0, 1, 2], cond_signals = 2\<rparr>"
  have l: "length [0, 0, 0, 0 :: int] = RING_SIZE 2" and ok: "list_all call_ok ?cs"
    by (simp_all add: RING_SIZE_def)
  have "(signalled ?s = 1) = snd (spec_ready 2 ?cs (0, False))"
    using ready_state_machine [OF ex_valid(1) l ok ex_run] by blast
  then have "signalled ?s = 1 \<and> snd (spec_ready 2 ?cs (0, False))"
    by simp
  then show ?thesis
    using ex_run l ok ex_valid(1) by blast
qed

subsection \<open>C9: no fault, and the cursor stays in range\<close>

text \<open>
  C9. With a valid state (the ring and the fragment buffer of \<open>RING_SIZE\<close> samples,
  \<open>ring_write\<close> below \<open>RING_SIZE\<close>) and an input of at least \<open>len\<close> samples,
  \<open>sndbuf_store\<close> returns without a fault, in every branch, and the state it
  leaves is valid again; it reads no input sample at an index \<open>len\<close> or above, as
  it does the same on the input cut to \<open>len\<close> samples. \<open>getNextFragment\<close> does not
  fault either: it waits while \<open>signalled\<close> is 0 and otherwise returns, leaving a
  valid state. A fault is what an access outside \<open>ring\<close>, \<open>data\<close> or the input
  gives.
\<close>

theorem calls_total:
  assumes "valid_build N" and "sndbuf_inv N s" and "unat len \<le> length input"
  shows "(\<exists>s'. sndbuf_store N input len s = Inr s' \<and> sndbuf_inv N s' \<and>
            unat (ring_write s') < RING_SIZE N \<and>
            sndbuf_store N (take (unat len) input) len s = Inr s') \<and>
         (\<forall>e. getNextFragment N s \<noteq> Faults e) \<and>
         (signalled s = 0 \<longrightarrow> getNextFragment N s = Waits) \<and>
         (signalled s \<noteq> 0 \<longrightarrow>
            (\<exists>c s'. getNextFragment N s = Returns (c, s') \<and> sndbuf_inv N s' \<and>
               unat (ring_write s') < RING_SIZE N))"
proof -
  obtain s' where "sndbuf_store N input len s = Inr s'" "sndbuf_inv N s'"
    using store_effect [OF assms] by blast
  then have "\<exists>s'. sndbuf_store N input len s = Inr s' \<and> sndbuf_inv N s' \<and>
            unat (ring_write s') < RING_SIZE N \<and>
            sndbuf_store N (take (unat len) input) len s = Inr s'"
    by (simp add: store_reads_below_len [OF assms] sndbuf_inv_def)
  moreover have "\<exists>c s'. getNextFragment N s = Returns (c, s') \<and> sndbuf_inv N s' \<and>
               unat (ring_write s') < RING_SIZE N" if "signalled s \<noteq> 0"
    using assms(2) by (simp add: getNextFragment_returns [OF assms(1,2) that] sndbuf_inv_def
        length_linearized)
  ultimately show ?thesis
    using getNextFragment_no_fault [OF assms(1,2)] getNextFragment_Waits [of s N]
    by blast
qed

theorem calls_total_witness:
  "valid_build 2 \<and>
   sndbuf_inv 2 \<lparr>ring = [10, 20, 30, 40 :: int], ring_write = 3, signalled = 1,
       ring_has = 7, data = [0, 0, 0, 0], cond_signals = 1\<rparr> \<and>
   (\<exists>s'. sndbuf_store 2 [1, 2, 3] 3 \<lparr>ring = [10, 20, 30, 40 :: int], ring_write = 3,
       signalled = 1, ring_has = 7, data = [0, 0, 0, 0], cond_signals = 1\<rparr> = Inr s' \<and>
     unat (ring_write s') < 4) \<and>
   (\<exists>c s'. getNextFragment 2 \<lparr>ring = [10, 20, 30, 40 :: int], ring_write = 3, signalled = 1,
       ring_has = 7, data = [0, 0, 0, 0], cond_signals = 1\<rparr> = Returns (c, s') \<and>
     unat (ring_write s') < 4)"
proof -
  let ?s = "\<lparr>ring = [10, 20, 30, 40 :: int], ring_write = 3, signalled = 1,
       ring_has = 7, data = [0, 0, 0, 0], cond_signals = 1\<rparr>"
  have v: "valid_build 2" and i: "sndbuf_inv 2 ?s"
    and l: "unat (3 :: 32 word) \<le> length [1, 2, 3 :: int]"
    by (simp_all add: valid_build_def sndbuf_inv_def RING_SIZE_def)
  have r: "RING_SIZE 2 = 4" "signalled ?s \<noteq> 0"
    by (simp_all add: RING_SIZE_def)
  show ?thesis
    using calls_total [OF v i l] v i r by auto
qed

subsection \<open>C10: fewer new samples than the ring holds\<close>

text \<open>
  C10. A fragment always has \<open>RING_SIZE\<close> samples. The fragment of a call of
  \<open>getNextFragment\<close> that follows an earlier one is the last \<open>RING_SIZE\<close> samples of
  the earlier fragment followed by the samples stored in between; so when fewer than
  \<open>RING_SIZE\<close> samples, say \<open>k\<close>, were stored in between, the later fragment starts
  with the last \<open>RING_SIZE - k\<close> samples of the earlier fragment, delivered a second
  time, and ends with the \<open>k\<close> new ones. The later call returns when \<open>signalled\<close> is
  set, which at least \<open>MIN_NEW_SAMPLES\<close> new samples bring about.
\<close>

theorem underrun_repeats_old_samples:
  assumes "valid_build N" and "sndbuf_inv N s" and "batches_ok bs"
    and "getNextFragment N s = Returns (c1, s1)"
  shows "length (data s1) = RING_SIZE N \<and>
     (\<exists>s2. store_all N bs s1 = Inr s2 \<and>
        (\<forall>c2 s3. getNextFragment N s2 = Returns (c2, s3) \<longrightarrow>
           length (data s3) = RING_SIZE N \<and>
           data s3 = last_n (RING_SIZE N) (data s1 @ samples bs) \<and>
           (length (samples bs) < RING_SIZE N \<longrightarrow>
              data s3 = drop (length (samples bs)) (data s1) @ samples bs \<and>
              (\<forall>i < RING_SIZE N - length (samples bs).
                 data s3 ! i = data s1 ! (length (samples bs) + i)))) \<and>
        (signalled s2 \<noteq> 0 \<longrightarrow> (\<exists>c2 s3. getNextFragment N s2 = Returns (c2, s3))) \<and>
        (MIN_NEW_SAMPLES N \<le> length (samples bs) \<and> length (samples bs) < 2 ^ 32 \<longrightarrow>
           signalled s2 \<noteq> 0))"
proof -
  define C S F1 where "C = RING_SIZE N" and "S = samples bs" and "F1 = data s1"
  have sig: "signalled s \<noteq> 0"
    using assms(4) by (auto simp add: getNextFragment_Waits)
  have s1: "s1 = s\<lparr>signalled := 0, data := linearized s, ring_has := 0\<rparr>"
    using getNextFragment_returns [OF assms(1,2) sig] assms(4) by simp
  have inv1: "sndbuf_inv N s1" and lin1: "linearized s1 = F1" and zero: "ring_has s1 = 0"
    and len1: "length F1 = C"
    using assms(2)
    by (simp_all add: s1 sndbuf_inv_def linearized_def F1_def C_def)
  obtain s2 where s2: "store_all N bs s1 = Inr s2" "sndbuf_inv N s2"
    and lin2: "linearized s2 = drop (length S) (F1 @ S)"
    using store_all_effect [OF assms(1) inv1 assms(3)] by (auto simp add: lin1 S_def)
  define F2 where "F2 = drop (length S) (F1 @ S)"
  have F2: "F2 = last_n C (F1 @ S)"
    unfolding F2_def using len1 by (simp only: last_n_full)
  have len2: "length F2 = C"
    using len1 by (simp add: F2_def)
  have under: "F2 = drop (length S) F1 @ S \<and>
      (\<forall>i < C - length S. F2 ! i = F1 ! (length S + i))" if "length S < C"
    using that len1 by (simp add: F2_def nth_append)
  have ret: "getNextFragment N s2 =
      Returns (sint (ring_has s2), s2\<lparr>signalled := 0, data := F2, ring_has := 0\<rparr>)"
    if "signalled s2 \<noteq> 0"
    using getNextFragment_returns [OF assms(1) s2(2) that] by (simp add: lin2 F2_def)
  have a: "data s3 = F2" if "getNextFragment N s2 = Returns (c2, s3)" for c2 s3
  proof -
    have "signalled s2 \<noteq> 0"
      using that by (auto simp add: getNextFragment_Waits)
    then show ?thesis
      using ret that by simp
  qed
  have b: "\<exists>c2 s3. getNextFragment N s2 = Returns (c2, s3)" if "signalled s2 \<noteq> 0"
    using ret [OF that] by blast
  have c: "signalled s2 \<noteq> 0" if "MIN_NEW_SAMPLES N \<le> length S" "length S < 2 ^ 32"
    using store_all_signalled [OF assms(1) inv1 assms(3) zero s2(1)] that by (simp add: S_def)
  have "length F1 = C \<and>
     (\<exists>s2. store_all N bs s1 = Inr s2 \<and>
        (\<forall>c2 s3. getNextFragment N s2 = Returns (c2, s3) \<longrightarrow>
           length (data s3) = C \<and>
           data s3 = last_n C (F1 @ S) \<and>
           (length S < C \<longrightarrow>
              data s3 = drop (length S) F1 @ S \<and>
              (\<forall>i < C - length S. data s3 ! i = F1 ! (length S + i)))) \<and>
        (signalled s2 \<noteq> 0 \<longrightarrow> (\<exists>c2 s3. getNextFragment N s2 = Returns (c2, s3))) \<and>
        (MIN_NEW_SAMPLES N \<le> length S \<and> length S < 2 ^ 32 \<longrightarrow> signalled s2 \<noteq> 0))"
    using len1 s2(1) a b c len2 under F2 by (metis (no_types, lifting))
  then show ?thesis
    unfolding C_def S_def F1_def .
qed

theorem underrun_repeats_old_samples_witness:
  "valid_build 2 \<and>
   sndbuf_inv 2 \<lparr>ring = [1, 2, 0, 0 :: int], ring_write = 2, signalled = 1, ring_has = 2,
      data = [0, 0, 0, 0], cond_signals = 1\<rparr> \<and>
   batches_ok [([3, 4, 5 :: int], 3)] \<and>
   (\<exists>c1 s1 s2 c2 s3.
      getNextFragment 2 \<lparr>ring = [1, 2, 0, 0 :: int], ring_write = 2, signalled = 1,
        ring_has = 2, data = [0, 0, 0, 0], cond_signals = 1\<rparr> = Returns (c1, s1) \<and>
      data s1 = [0, 0, 1, 2] \<and>
      store_all 2 [([3, 4, 5], 3)] s1 = Inr s2 \<and>
      getNextFragment 2 s2 = Returns (c2, s3) \<and>
      data s3 = [2, 3, 4, 5] \<and> data s3 ! 0 = data s1 ! 3)"
proof -
  let ?s = "\<lparr>ring = [1, 2, 0, 0 :: int], ring_write = 2, signalled = 1, ring_has = 2,
      data = [0, 0, 0, 0], cond_signals = 1\<rparr>"
  let ?s1 = "\<lparr>ring = [1, 2, 0, 0 :: int], ring_write = 2, signalled = 0, ring_has = 0,
      data = [0, 0, 1, 2], cond_signals = 1\<rparr>"
  let ?bs = "[([3, 4, 5 :: int], 3 :: 32 word)]"
  have i: "sndbuf_inv 2 ?s" and ok: "batches_ok ?bs"
    by (simp_all add: sndbuf_inv_def RING_SIZE_def batches_ok_def)
  obtain s2 where s2: "store_all 2 ?bs ?s1 = Inr s2"
    and frag: "\<And>c2 s3. getNextFragment 2 s2 = Returns (c2, s3) \<Longrightarrow>
        length (samples ?bs) < RING_SIZE 2 \<longrightarrow>
          data s3 = drop (length (samples ?bs)) (data ?s1) @ samples ?bs"
    and ret: "MIN_NEW_SAMPLES 2 \<le> length (samples ?bs) \<and> length (samples ?bs) < 2 ^ 32 \<longrightarrow>
        signalled s2 \<noteq> 0"
       "signalled s2 \<noteq> 0 \<longrightarrow> (\<exists>c2 s3. getNextFragment 2 s2 = Returns (c2, s3))"
    using underrun_repeats_old_samples [OF ex_valid(1) i ok ex_drain] by blast
  have "MIN_NEW_SAMPLES 2 \<le> length (samples ?bs) \<and> length (samples ?bs) < 2 ^ 32"
    by (simp add: ex_samples MIN_NEW_SAMPLES_eq)
  then obtain c2 s3 where r: "getNextFragment 2 s2 = Returns (c2, s3)"
    using ret by blast
  have "data s3 = [2, 3, 4, 5]"
    using frag [OF r] by (simp add: ex_samples ex_valid(2))
  then have "data ?s1 = [0, 0, 1, 2] \<and> data s3 = [2, 3, 4, 5] \<and> data s3 ! 0 = data ?s1 ! 3"
    by simp
  then show ?thesis
    using ex_drain s2 r i ok ex_valid(1) by blast
qed

end
